theory Spec2Isabelle
  imports Complex_Main "HOL-Library.Product_Lexorder"
begin

section \<open>Floating-point values\<close>

text \<open>
  NumPy arrays of dtype float64 hold finite numbers, the two infinities and NaN.
  Finite values are modelled as exact reals: rounding and overflow of finite
  arithmetic are abstracted away, the special values follow IEEE 754. Zero is
  unsigned: a nonzero finite value divided by zero gives the infinity of its own
  sign, and \<open>0 / 0\<close> is NaN (NumPy warns, it does not raise).
\<close>

datatype npfloat = Fin real | PInf | NInf | NaN

datatype error = ValueError | NotFittedError | IndexError | AttributeError

fun np_isfinite :: "npfloat \<Rightarrow> bool" where
  "np_isfinite (Fin r) = True"
| "np_isfinite v = False"

fun as_finite :: "npfloat \<Rightarrow> real option" where
  "as_finite (Fin r) = Some r"
| "as_finite v = None"

text \<open>The order NumPy sorts and searches by: \<open>-inf < finite < +inf < nan\<close>.\<close>

fun np_key :: "npfloat \<Rightarrow> nat \<times> real" where
  "np_key NInf = (0, 0)"
| "np_key (Fin r) = (1, r)"
| "np_key PInf = (2, 0)"
| "np_key NaN = (3, 0)"

fun np_neg :: "npfloat \<Rightarrow> npfloat" where
  "np_neg (Fin a) = Fin (- a)"
| "np_neg PInf = NInf"
| "np_neg NInf = PInf"
| "np_neg NaN = NaN"

fun np_add :: "npfloat \<Rightarrow> npfloat \<Rightarrow> npfloat" where
  "np_add (Fin a) (Fin b) = Fin (a + b)"
| "np_add NaN v = NaN"
| "np_add v NaN = NaN"
| "np_add PInf NInf = NaN"
| "np_add NInf PInf = NaN"
| "np_add PInf v = PInf"
| "np_add v PInf = PInf"
| "np_add NInf v = NInf"
| "np_add v NInf = NInf"

definition np_sub :: "npfloat \<Rightarrow> npfloat \<Rightarrow> npfloat" where
  "np_sub a b = np_add a (np_neg b)"

text \<open>The infinity of the sign of \<open>a\<close>, a nonzero real.\<close>

definition inf_of_sign :: "real \<Rightarrow> npfloat" where
  "inf_of_sign a = (if 0 < a then PInf else NInf)"

fun np_mul :: "npfloat \<Rightarrow> npfloat \<Rightarrow> npfloat" where
  "np_mul (Fin a) (Fin b) = Fin (a * b)"
| "np_mul NaN v = NaN"
| "np_mul v NaN = NaN"
| "np_mul PInf (Fin b) = (if b = 0 then NaN else inf_of_sign b)"
| "np_mul NInf (Fin b) = (if b = 0 then NaN else inf_of_sign (- b))"
| "np_mul (Fin a) PInf = (if a = 0 then NaN else inf_of_sign a)"
| "np_mul (Fin a) NInf = (if a = 0 then NaN else inf_of_sign (- a))"
| "np_mul PInf PInf = PInf"
| "np_mul NInf NInf = PInf"
| "np_mul PInf NInf = NInf"
| "np_mul NInf PInf = NInf"

fun np_div :: "npfloat \<Rightarrow> npfloat \<Rightarrow> npfloat" where
  "np_div (Fin a) (Fin b) =
     (if b = 0 then (if a = 0 then NaN else inf_of_sign a) else Fin (a / b))"
| "np_div NaN v = NaN"
| "np_div v NaN = NaN"
| "np_div (Fin a) PInf = Fin 0"
| "np_div (Fin a) NInf = Fin 0"
| "np_div PInf (Fin b) = (if 0 \<le> b then PInf else NInf)"
| "np_div NInf (Fin b) = (if 0 \<le> b then NInf else PInf)"
| "np_div PInf v = NaN"
| "np_div NInf v = NaN"

text \<open>\<open>np.maximum\<close>, \<open>np.minimum\<close> and \<open>np.clip\<close>: a NaN operand gives NaN.\<close>

definition np_maximum :: "npfloat \<Rightarrow> npfloat \<Rightarrow> npfloat" where
  "np_maximum a b =
     (if a = NaN \<or> b = NaN then NaN else if np_key a < np_key b then b else a)"

definition np_minimum :: "npfloat \<Rightarrow> npfloat \<Rightarrow> npfloat" where
  "np_minimum a b =
     (if a = NaN \<or> b = NaN then NaN else if np_key b < np_key a then b else a)"

definition np_clip :: "npfloat \<Rightarrow> npfloat \<Rightarrow> npfloat \<Rightarrow> npfloat" where
  "np_clip v lo hi = np_minimum (np_maximum v lo) hi"

section \<open>Array operations\<close>

text \<open>
  \<open>np.argsort\<close>: the indices that sort the array. Ties keep their original order
  (the stable order of \<open>kind="mergesort"\<close>; on distinct values every kind agrees).
\<close>

definition argsort :: "('a \<Rightarrow> 'k::linorder) \<Rightarrow> 'a list \<Rightarrow> nat list" where
  "argsort key a = map snd (sort_key (\<lambda>p. key (fst p)) (zip a [0..<length a]))"

text \<open>\<open>np.max\<close> of an integer array; it raises ValueError on an empty array.\<close>

fun np_max :: "nat list \<Rightarrow> error + nat" where
  "np_max [] = Inl ValueError"
| "np_max (r # rs) = Inr (fold max rs r)"

text \<open>
  \<open>np.unique(x, return_index=True)[1]\<close>: for each distinct value, in ascending
  order of the values, the index of its first occurrence in \<open>x\<close>.
\<close>

definition first_index :: "'a list \<Rightarrow> 'a \<Rightarrow> nat" where
  "first_index a v = length (takeWhile (\<lambda>e. e \<noteq> v) a)"

definition np_unique_index :: "real list \<Rightarrow> nat list" where
  "np_unique_index a = map (first_index a) (sort (remdups a))"

text \<open>
  \<open>np.searchsorted(a, v)\<close> (side left) on a sorted array: the first index whose
  element is not below \<open>v\<close>.
\<close>

definition searchsorted :: "npfloat list \<Rightarrow> npfloat \<Rightarrow> nat" where
  "searchsorted a v = length (takeWhile (\<lambda>e. np_key e < np_key v) a)"

text \<open>Indexing with a possibly negative index, which counts from the end.\<close>

definition np_index :: "'a list \<Rightarrow> int \<Rightarrow> 'a" where
  "np_index a i = (if i < 0 then a ! nat (int (length a) + i) else a ! nat i)"

text \<open>
  The transpose \<open>.T\<close> of a rectangular two-dimensional array with at least one row,
  given as the list of its rows.
\<close>

definition np_T :: "'a list list \<Rightarrow> 'a list list" where
  "np_T X = map (\<lambda>j. map (\<lambda>row. row ! j) X) [0..<length (hd X)]"

section \<open>The collaborators\<close>

text \<open>
  Modelled from the spec: \<open>sklearn.utils.validation.check_array\<close> with
  \<open>force_all_finite=True\<close>, the array validator of section 6. It rejects an input
  with no row or no column, a ragged one, and any NaN or infinite element with a
  ValueError, and returns the finite two-dimensional array otherwise. The \<open>copy\<close>
  flag only decides whether the buffer is shared and does not change a value.
\<close>

definition check_array :: "npfloat list list \<Rightarrow> error + real list list" where
  "check_array X =
     (if X \<noteq> [] \<and> hd X \<noteq> [] \<and> list_all (\<lambda>row. length row = length (hd X)) X
      then (case those (map (\<lambda>row. those (map as_finite row)) X) of
              None \<Rightarrow> Inl ValueError
            | Some X' \<Rightarrow> Inr X')
      else Inl ValueError)"

text \<open>
  Modelled from the spec: \<open>joblib.Parallel\<close>, the task runner of section 6. Given
  the worker count and the list of delayed calls it runs every call and returns
  the results in input order; the exception of a failing call propagates.
\<close>

fun Parallel :: "int option \<Rightarrow> (unit \<Rightarrow> error + 'a) list \<Rightarrow> error + 'a list" where
  "Parallel n [] = Inr []"
| "Parallel n (t # ts) =
     (case t () of
        Inl e \<Rightarrow> Inl e
      | Inr v \<Rightarrow> (case Parallel n ts of Inl e \<Rightarrow> Inl e | Inr vs \<Rightarrow> Inr (v # vs)))"

subsection \<open>The interpolator\<close>

text \<open>
  Modelled from the spec: the interpolation rule of sections 3 and 4.1, as
  \<open>scipy.interpolate.interp1d\<close> computes it for \<open>kind='linear'\<close> (the default
  \<open>interp_kind\<close>; the higher-order kinds are not modelled) and
  \<open>fill_value='extrapolate'\<close>. The constructor refuses arrays of different
  lengths and an empty array, and sorts the control points by \<open>x\<close> with a stable
  sort; its attributes \<open>x\<close> and \<open>y\<close> are the sorted arrays \<open>interp_x\<close> and
  \<open>interp_y\<close>. The call looks up the first control value not below the new
  value, clips that index to \<open>1 .. n - 1\<close>, and returns the point on the line
  through the control point at this index and the one before it; for a value
  outside the range these are the two outermost control points. The \<open>copy\<close>
  flag only decides whether buffers are shared.
\<close>

record interp1d_obj =
  interp_x :: "npfloat list"
  interp_y :: "npfloat list"

definition interp1d :: "npfloat list \<Rightarrow> npfloat list \<Rightarrow> error + interp1d_obj" where
  "interp1d xs ys =
     (if length xs \<noteq> length ys \<or> length xs < 1 then Inl ValueError
      else let ind = argsort np_key xs
           in Inr \<lparr>interp_x = map (\<lambda>i. xs ! i) ind, interp_y = map (\<lambda>i. ys ! i) ind\<rparr>)"

definition call_linear :: "interp1d_obj \<Rightarrow> npfloat \<Rightarrow> npfloat" where
  "call_linear f x_new =
     (let n = int (length (interp_x f));
          i = int (searchsorted (interp_x f) x_new);
          hi = min (max i 1) (n - 1);
          lo = hi - 1;
          x_lo = np_index (interp_x f) lo;
          x_hi = np_index (interp_x f) hi;
          y_lo = np_index (interp_y f) lo;
          y_hi = np_index (interp_y f) hi;
          slope = np_div (np_sub y_hi y_lo) (np_sub x_hi x_lo)
      in np_add (np_mul slope (np_sub x_new x_lo)) y_lo)"

definition interp1d_call :: "interp1d_obj \<Rightarrow> npfloat list \<Rightarrow> npfloat list" where
  "interp1d_call f x_new = map (call_linear f) x_new"

section \<open>The scaler\<close>

text \<open>
  The estimator object. \<open>interp_func\<close> is the attribute \<open>interp_func_\<close>, absent
  until \<open>fit\<close> has run; of \<open>interp_params\<close> the record keeps \<open>interp_copy\<close>,
  the kind being \<open>'linear'\<close> and the fill value \<open>'extrapolate'\<close>. Every method
  returns the object after the call together with its result or the exception it
  raised. The methods \<open>_fit\<close>, \<open>_transform\<close> and \<open>_inverse_transform\<close> are
  \<open>private_fit\<close>, \<open>private_transform\<close> and \<open>private_inverse_transform\<close>.
\<close>

record GuassRankScaler =
  epsilon :: real
  copy :: bool
  n_jobs :: "int option"
  interp_copy :: bool
  interp_func :: "interp1d_obj list option"

definition drop_duplicates :: "real list \<Rightarrow> real list" where
  "drop_duplicates a =
     (let idx = np_unique_index a;
          k = map (\<lambda>i. i \<in> set idx) [0..<length a]
      in map fst (filter snd (zip a k)))"

text \<open>The steps of \<open>_fit\<close>, named after its local variables.\<close>

definition fit_rank :: "real list \<Rightarrow> nat list" where
  "fit_rank a = argsort id (argsort id (drop_duplicates a))"

definition fit_bound :: "GuassRankScaler \<Rightarrow> real" where
  "fit_bound s = 1 - epsilon s"

definition fit_factor :: "GuassRankScaler \<Rightarrow> nat \<Rightarrow> real" where
  "fit_factor s mx = real mx / 2 * fit_bound s"

text \<open>\<open>rank / factor - bound\<close> at one rank, before and after the clip.\<close>

definition unclipped_rank :: "real \<Rightarrow> real \<Rightarrow> nat \<Rightarrow> npfloat" where
  "unclipped_rank bound factor r = np_sub (np_div (Fin (real r)) (Fin factor)) (Fin bound)"

definition scale_rank :: "real \<Rightarrow> real \<Rightarrow> nat \<Rightarrow> npfloat" where
  "scale_rank bound factor r =
     np_clip (unclipped_rank bound factor r) (Fin (- bound)) (Fin bound)"

definition fit_scaled_rank :: "GuassRankScaler \<Rightarrow> real list \<Rightarrow> error + npfloat list" where
  "fit_scaled_rank s a =
     (let rank = fit_rank a
      in case np_max rank of
           Inl e \<Rightarrow> Inl e
         | Inr mx \<Rightarrow> Inr (map (scale_rank (fit_bound s) (fit_factor s mx)) rank))"

definition private_fit :: "GuassRankScaler \<Rightarrow> real list \<Rightarrow> error + interp1d_obj" where
  "private_fit s a =
     (case fit_scaled_rank s a of
        Inl e \<Rightarrow> Inl e
      | Inr scaled_rank \<Rightarrow> interp1d (map Fin (drop_duplicates a)) scaled_rank)"

definition fit :: "GuassRankScaler \<Rightarrow> npfloat list list \<Rightarrow> GuassRankScaler \<times> (error + unit)" where
  "fit s X =
     (case check_array X of
        Inl e \<Rightarrow> (s, Inl e)
      | Inr X' \<Rightarrow>
          (case Parallel (n_jobs s) (map (\<lambda>a u. private_fit s a) (np_T X')) of
             Inl e \<Rightarrow> (s, Inl e)
           | Inr fs \<Rightarrow> (s\<lparr>interp_func := Some fs\<rparr>, Inr ())))"

definition check_is_fitted :: "GuassRankScaler \<Rightarrow> error + unit" where
  "check_is_fitted s = (case interp_func s of None \<Rightarrow> Inl NotFittedError | Some fs \<Rightarrow> Inr ())"

text \<open>
  \<open>erfinv\<close> and \<open>erf\<close> of \<open>scipy.special\<close> are parameters of the model: the
  methods that call them take them as their first argument.
\<close>

definition private_transform ::
  "(npfloat \<Rightarrow> npfloat) \<Rightarrow> GuassRankScaler \<Rightarrow> nat \<Rightarrow> real list \<Rightarrow> error + npfloat list" where
  "private_transform erfinv s i a =
     (case interp_func s of
        None \<Rightarrow> Inl AttributeError
      | Some fs \<Rightarrow>
          if i < length fs then Inr (map erfinv (interp1d_call (fs ! i) (map Fin a)))
          else Inl IndexError)"

definition transform ::
  "(npfloat \<Rightarrow> npfloat) \<Rightarrow> GuassRankScaler \<Rightarrow> npfloat list list
     \<Rightarrow> GuassRankScaler \<times> (error + npfloat list list)" where
  "transform erfinv s X =
     (case check_is_fitted s of
        Inl e \<Rightarrow> (s, Inl e)
      | Inr u \<Rightarrow>
          (case check_array X of
             Inl e \<Rightarrow> (s, Inl e)
           | Inr X' \<Rightarrow>
               (case Parallel (n_jobs s)
                       (map (\<lambda>(i, a) u. private_transform erfinv s i a) (enumerate 0 (np_T X'))) of
                  Inl e \<Rightarrow> (s, Inl e)
                | Inr cols \<Rightarrow> (s, Inr (np_T cols)))))"

definition private_inverse_transform ::
  "(npfloat \<Rightarrow> npfloat) \<Rightarrow> GuassRankScaler \<Rightarrow> nat \<Rightarrow> real list \<Rightarrow> error + npfloat list" where
  "private_inverse_transform erf s i a =
     (case interp_func s of
        None \<Rightarrow> Inl AttributeError
      | Some fs \<Rightarrow>
          if i < length fs then
            (case interp1d (interp_y (fs ! i)) (interp_x (fs ! i)) of
               Inl e \<Rightarrow> Inl e
             | Inr inv_interp_func \<Rightarrow>
                 Inr (interp1d_call inv_interp_func (map (\<lambda>v. erf (Fin v)) a)))
          else Inl IndexError)"

definition inverse_transform ::
  "(npfloat \<Rightarrow> npfloat) \<Rightarrow> GuassRankScaler \<Rightarrow> npfloat list list
     \<Rightarrow> GuassRankScaler \<times> (error + npfloat list list)" where
  "inverse_transform erf s X =
     (case check_is_fitted s of
        Inl e \<Rightarrow> (s, Inl e)
      | Inr u \<Rightarrow>
          (case check_array X of
             Inl e \<Rightarrow> (s, Inl e)
           | Inr X' \<Rightarrow>
               (case Parallel (n_jobs s)
                       (map (\<lambda>(i, a) u. private_inverse_transform erf s i a)
                          (enumerate 0 (np_T X'))) of
                  Inl e \<Rightarrow> (s, Inl e)
                | Inr cols \<Rightarrow> (s, Inr (np_T cols)))))"

text \<open>
  The constructor \<open>__init__\<close> (with \<open>interp_kind='linear'\<close>) and the scaler of
  the default arguments, \<open>epsilon=1e-4\<close>.
\<close>

definition GuassRankScaler_init :: "real \<Rightarrow> bool \<Rightarrow> int option \<Rightarrow> bool \<Rightarrow> GuassRankScaler" where
  "GuassRankScaler_init eps cp nj icp =
     \<lparr>epsilon = eps, copy = cp, n_jobs = nj, interp_copy = icp, interp_func = None\<rparr>"

definition default_scaler :: GuassRankScaler where
  "default_scaler = GuassRankScaler_init (1 / 10000) True None False"

text \<open>The scaler fitted by default on the two columns \<open>[1, 2]\<close> and \<open>[2, 5]\<close>.\<close>

definition fitted_two :: GuassRankScaler where
  "fitted_two = default_scaler\<lparr>interp_func := Some
     [\<lparr>interp_x = [Fin 1, Fin 2], interp_y = [Fin (- (9999 / 10000)), Fin (9999 / 10000)]\<rparr>,
      \<lparr>interp_x = [Fin 2, Fin 5], interp_y = [Fin (- (9999 / 10000)), Fin (9999 / 10000)]\<rparr>]\<rparr>"

text \<open>
  A scaler with \<open>epsilon=0.5\<close>, and what \<open>fit\<close> makes of it on the single column
  \<open>[1, 2, 3]\<close>.
\<close>

definition half_scaler :: GuassRankScaler where
  "half_scaler = GuassRankScaler_init (1 / 2) True None False"

definition fitted_half :: GuassRankScaler where
  "fitted_half = half_scaler\<lparr>interp_func := Some
     [\<lparr>interp_x = [Fin 1, Fin 2, Fin 3],
       interp_y = [Fin (- (1 / 2)), Fin (1 / 2), Fin (1 / 2)]\<rparr>]\<rparr>"

text \<open>The column \<open>0, 1, ..., 5002\<close> of 5003 distinct values, and the one-column input holding it.\<close>

definition wide_column :: "real list" where
  "wide_column = map real [0..<5003]"

definition wide_input :: "npfloat list list" where
  "wide_input = map (\<lambda>v. [Fin v]) wide_column"

section \<open>Validation, the task runner and the shape of results\<close>

lemma those_as_finite_Some:
  "those (map as_finite row) = Some r \<Longrightarrow> row = map Fin r"
proof (induction row arbitrary: r)
  case Nil
  then show ?case by simp
next
  case (Cons v row)
  then show ?case by (cases v) (auto split: option.splits)
qed

lemma those_rows_Some:
  "those (map (\<lambda>row. those (map as_finite row)) X) = Some X' \<Longrightarrow> X = map (map Fin) X'"
proof (induction X arbitrary: X')
  case Nil
  then show ?case by simp
next
  case (Cons row X)
  then show ?case by (auto simp: those_as_finite_Some split: option.splits)
qed

lemma those_as_finite_Fin: "those (map as_finite (map Fin r)) = Some r"
  by (induction r) auto

lemma those_rows_Fin: "those (map (\<lambda>row. those (map as_finite row)) (map (map Fin) X')) = Some X'"
  by (induction X') (simp_all add: those_as_finite_Fin del: map_map)

lemma check_array_Inr:
  assumes "check_array X = Inr X'"
  shows "X = map (map Fin) X'" and "X' \<noteq> []" and "hd X' \<noteq> []"
    and "list_all (\<lambda>row. length row = length (hd X')) X'"
proof -
  from assms have c: "X \<noteq> []" "hd X \<noteq> []" "list_all (\<lambda>row. length row = length (hd X)) X"
    and t: "those (map (\<lambda>row. those (map as_finite row)) X) = Some X'"
    by (auto simp: check_array_def split: if_splits option.splits)
  from t show eq: "X = map (map Fin) X'" by (rule those_rows_Some)
  from c(1) eq show ne: "X' \<noteq> []" by auto
  from c(2) eq ne show "hd X' \<noteq> []" by (cases X') auto
  from c(3) eq ne show "list_all (\<lambda>row. length row = length (hd X')) X'"
    by (cases X') (auto simp: list_all_iff)
qed

lemma check_array_Fin:
  assumes "X' \<noteq> []" and "hd X' \<noteq> []"
    and "list_all (\<lambda>row. length row = length (hd X')) X'"
  shows "check_array (map (map Fin) X') = Inr X'"
proof -
  obtain r R where X': "X' = r # R" using assms(1) by (cases X') auto
  have t: "those (map (\<lambda>row. those (map as_finite row)) (map (map Fin) X')) = Some X'"
    by (rule those_rows_Fin)
  have c: "map (map Fin) X' \<noteq> []" "hd (map (map Fin) X') \<noteq> []"
    "list_all (\<lambda>row. length row = length (hd (map (map Fin) X'))) (map (map Fin) X')"
    using assms by (simp_all add: X' list_all_iff)
  show ?thesis unfolding check_array_def using c t by (simp only: simp_thms if_True option.case)
qed

lemma Parallel_n_jobs: "Parallel n ts = Parallel m ts"
  by (induction ts) (auto split: sum.splits)

lemma Parallel_Inr_D:
  "Parallel n ts = Inr vs \<Longrightarrow> length vs = length ts \<and> (\<forall>j<length ts. (ts ! j) () = Inr (vs ! j))"
proof (induction ts arbitrary: vs)
  case Nil
  then show ?case by simp
next
  case (Cons t ts)
  then show ?case by (auto split: sum.splits simp: nth_Cons split: nat.splits)
qed

lemma Parallel_all_Inr:
  "\<forall>j<length ts. (ts ! j) () = Inr (vs ! j) \<Longrightarrow> length vs = length ts \<Longrightarrow> Parallel n ts = Inr vs"
proof (induction ts arbitrary: vs)
  case Nil
  then show ?case by simp
next
  case (Cons t ts)
  then obtain v vs' where vs: "vs = v # vs'" by (cases vs) auto
  with Cons.prems have "t () = Inr v" by force
  moreover have "Parallel n ts = Inr vs'"
  proof (rule Cons.IH)
    show "\<forall>j<length ts. (ts ! j) () = Inr (vs' ! j)" using Cons.prems(1) vs by force
    show "length vs' = length ts" using Cons.prems(2) vs by simp
  qed
  ultimately show ?case using vs by simp
qed

lemma Parallel_first_error:
  "k < length ts \<Longrightarrow> (ts ! k) () = Inl e \<Longrightarrow> \<forall>j<k. \<exists>v. (ts ! j) () = Inr v \<Longrightarrow> Parallel n ts = Inl e"
proof (induction ts arbitrary: k)
  case Nil
  then show ?case by simp
next
  case (Cons t ts)
  show ?case
  proof (cases k)
    case 0
    with Cons.prems show ?thesis by simp
  next
    case (Suc k')
    with Cons.prems have "\<exists>v. t () = Inr v" by force
    moreover have "Parallel n ts = Inl e"
    proof (rule Cons.IH [of k'])
      show "k' < length ts" using Cons.prems(1) Suc by simp
      show "(ts ! k') () = Inl e" using Cons.prems(2) Suc by simp
      show "\<forall>j<k'. \<exists>v. (ts ! j) () = Inr v" using Cons.prems(3) Suc by force
    qed
    ultimately show ?thesis by auto
  qed
qed

lemma np_T_length: "length (np_T X) = length (hd X)"
  by (simp add: np_T_def)

lemma np_T_nth: "j < length (hd X) \<Longrightarrow> np_T X ! j = map (\<lambda>row. row ! j) X"
  by (simp add: np_T_def)

lemma Parallel_enumerate_Inr:
  assumes "\<forall>j<length cols. F j (cols ! j) = Inr (G j (cols ! j))"
  shows "Parallel n (map (\<lambda>(i, a) u. F i a) (enumerate 0 cols))
         = Inr (map (\<lambda>(i, a). G i a) (enumerate 0 cols))"
  by (rule Parallel_all_Inr) (simp_all add: assms nth_enumerate_eq)

lemma Parallel_enumerate_Inl:
  assumes "k < length cols" and "F k (cols ! k) = Inl e"
    and "\<forall>j<k. \<exists>v. F j (cols ! j) = Inr v"
  shows "Parallel n (map (\<lambda>(i, a) u. F i a) (enumerate 0 cols)) = Inl e"
  by (rule Parallel_first_error [of k]) (use assms in \<open>simp_all add: nth_enumerate_eq\<close>)

lemma length_argsort [simp]: "length (argsort key a) = length a"
  by (simp add: argsort_def)

lemma interp1d_Inr_D:
  "interp1d xs ys = Inr f \<Longrightarrow>
   length (interp_x f) = length xs \<and> length (interp_y f) = length xs \<and> 1 \<le> length xs \<and> length ys = length xs"
  by (auto simp: interp1d_def Let_def Suc_le_eq split: if_splits)

lemma interp1d_swap_ok:
  assumes "interp1d xs ys = Inr f"
  shows "\<exists>g. interp1d (interp_y f) (interp_x f) = Inr g"
proof -
  from interp1d_Inr_D [OF assms]
  have "length (interp_y f) = length (interp_x f)" and "\<not> length (interp_y f) < 1"
    by auto
  then show ?thesis by (simp add: interp1d_def Let_def)
qed

lemma fit_bound_n_jobs [simp]: "fit_bound (s\<lparr>n_jobs := n\<rparr>) = fit_bound s"
  by (simp add: fit_bound_def)

lemma fit_factor_n_jobs [simp]: "fit_factor (s\<lparr>n_jobs := n\<rparr>) mx = fit_factor s mx"
  by (simp add: fit_factor_def)

lemma private_fit_n_jobs [simp]: "private_fit (s\<lparr>n_jobs := n\<rparr>) a = private_fit s a"
  by (simp add: private_fit_def fit_scaled_rank_def Let_def split: sum.splits)

lemma private_transform_n_jobs [simp]:
  "private_transform erfinv (s\<lparr>n_jobs := n\<rparr>) i a = private_transform erfinv s i a"
  by (simp add: private_transform_def)

lemma private_inverse_transform_n_jobs [simp]:
  "private_inverse_transform erf (s\<lparr>n_jobs := n\<rparr>) i a = private_inverse_transform erf s i a"
  by (simp add: private_inverse_transform_def)

lemma private_fit_swap_ok:
  assumes "private_fit s a = Inr f"
  shows "\<exists>g. interp1d (interp_y f) (interp_x f) = Inr g"
  using assms by (auto simp: private_fit_def split: sum.splits intro: interp1d_swap_ok)

lemma fit_success:
  assumes "fit s0 X0 = (s, Inr ())"
  obtains X' fs where "check_array X0 = Inr X'" and "s = s0\<lparr>interp_func := Some fs\<rparr>"
    and "length fs = length (hd X0)"
    and "\<And>j. j < length fs \<Longrightarrow> private_fit s0 (map (\<lambda>row. row ! j) X') = Inr (fs ! j)"
proof -
  from assms obtain X' fs where c: "check_array X0 = Inr X'"
    and p: "Parallel (n_jobs s0) (map (\<lambda>a u. private_fit s0 a) (np_T X')) = Inr fs"
    and s: "s = s0\<lparr>interp_func := Some fs\<rparr>"
    by (auto simp: fit_def split: sum.splits)
  have hd: "length (hd X') = length (hd X0)"
    using check_array_Inr [OF c] by (cases X') auto
  from Parallel_Inr_D [OF p] have len: "length fs = length (hd X')"
    and nth: "\<forall>j<length (hd X'). private_fit s0 (np_T X' ! j) = Inr (fs ! j)"
    by (simp_all add: np_T_length)
  show ?thesis
  proof (rule that [OF c s])
    show "length fs = length (hd X0)" using len hd by simp
    fix j assume "j < length fs"
    then show "private_fit s0 (map (\<lambda>row. row ! j) X') = Inr (fs ! j)"
      using nth len by (simp add: np_T_nth)
  qed
qed

lemma transform_fitted_ok:
  assumes "interp_func s = Some fs" and "check_array X = Inr X'"
    and "length (hd X') \<le> length fs"
  shows "transform erfinv s X =
           (s, Inr (np_T (map (\<lambda>(i, a). map erfinv (interp1d_call (fs ! i) (map Fin a)))
                           (enumerate 0 (np_T X')))))"
proof -
  have "Parallel (n_jobs s) (map (\<lambda>(i, a) u. private_transform erfinv s i a) (enumerate 0 (np_T X')))
        = Inr (map (\<lambda>(i, a). map erfinv (interp1d_call (fs ! i) (map Fin a))) (enumerate 0 (np_T X')))"
    by (rule Parallel_enumerate_Inr) (use assms in \<open>simp add: private_transform_def np_T_length\<close>)
  then show ?thesis
    using assms by (simp add: transform_def check_is_fitted_def)
qed

lemma transform_fitted_too_many:
  assumes "interp_func s = Some fs" and "check_array X = Inr X'"
    and "length fs < length (hd X')"
  shows "transform erfinv s X = (s, Inl IndexError)"
proof -
  have "Parallel (n_jobs s) (map (\<lambda>(i, a) u. private_transform erfinv s i a) (enumerate 0 (np_T X')))
        = Inl IndexError"
    by (rule Parallel_enumerate_Inl [of "length fs"])
      (use assms in \<open>simp_all add: private_transform_def np_T_length\<close>)
  then show ?thesis
    using assms by (simp add: transform_def check_is_fitted_def)
qed

lemma inverse_transform_fitted_ok:
  assumes "interp_func s = Some fs" and "check_array X = Inr X'"
    and "length (hd X') \<le> length fs"
    and "\<forall>j<length (hd X'). interp1d (interp_y (fs ! j)) (interp_x (fs ! j)) = Inr (g j)"
  shows "inverse_transform erf s X =
           (s, Inr (np_T (map (\<lambda>(i, a). interp1d_call (g i) (map (\<lambda>v. erf (Fin v)) a))
                           (enumerate 0 (np_T X')))))"
proof -
  have "Parallel (n_jobs s)
          (map (\<lambda>(i, a) u. private_inverse_transform erf s i a) (enumerate 0 (np_T X')))
        = Inr (map (\<lambda>(i, a). interp1d_call (g i) (map (\<lambda>v. erf (Fin v)) a))
                 (enumerate 0 (np_T X')))"
    by (rule Parallel_enumerate_Inr)
      (use assms in \<open>simp add: private_inverse_transform_def np_T_length\<close>)
  then show ?thesis
    using assms by (simp add: inverse_transform_def check_is_fitted_def)
qed

lemma inverse_transform_fitted_too_many:
  assumes "interp_func s = Some fs" and "check_array X = Inr X'"
    and "length fs < length (hd X')"
    and "\<forall>j<length fs. \<exists>g. interp1d (interp_y (fs ! j)) (interp_x (fs ! j)) = Inr g"
  shows "inverse_transform erf s X = (s, Inl IndexError)"
proof -
  have "Parallel (n_jobs s)
          (map (\<lambda>(i, a) u. private_inverse_transform erf s i a) (enumerate 0 (np_T X')))
        = Inl IndexError"
  proof (rule Parallel_enumerate_Inl [of "length fs"])
    show "length fs < length (np_T X')" using assms(3) by (simp add: np_T_length)
    show "private_inverse_transform erf s (length fs) (np_T X' ! length fs) = Inl IndexError"
      using assms(1) by (simp add: private_inverse_transform_def)
    show "\<forall>j<length fs. \<exists>v. private_inverse_transform erf s j (np_T X' ! j) = Inr v"
      using assms(1,4) by (auto simp: private_inverse_transform_def)
  qed
  then show ?thesis
    using assms by (simp add: inverse_transform_def check_is_fitted_def)
qed

lemma np_T_shape:
  assumes "cols \<noteq> []" and "\<forall>c\<in>set cols. length c = n"
  shows "length (np_T cols) = n"
    and "list_all (\<lambda>row. length row = length cols) (np_T cols)"
    and "\<And>r j. r < n \<Longrightarrow> j < length cols \<Longrightarrow> np_T cols ! r ! j = cols ! j ! r"
proof -
  from assms have hd: "length (hd cols) = n" by (cases cols) auto
  show "length (np_T cols) = n" by (simp add: np_T_def hd)
  show "list_all (\<lambda>row. length row = length cols) (np_T cols)"
    by (simp add: np_T_def list_all_iff)
  fix r j assume "r < n" "j < length cols"
  then show "np_T cols ! r ! j = cols ! j ! r" by (simp add: np_T_def hd)
qed

lemma validated_shape:
  assumes "check_array X = Inr X'"
  shows "length X' = length X" and "length (hd X') = length (hd X)"
    and "np_T X' \<noteq> []" and "\<forall>c\<in>set (np_T X'). length c = length X"
proof -
  note c = check_array_Inr [OF assms]
  show "length X' = length X" using c(1) by simp
  show "length (hd X') = length (hd X)" using c(1,2) by (cases X') auto
  show "np_T X' \<noteq> []" using c(3) by (simp add: np_T_def)
  show "\<forall>c\<in>set (np_T X'). length c = length X" using c(1) by (auto simp: np_T_def)
qed

lemmas eval_defs = fit_def transform_def inverse_transform_def private_fit_def
  private_transform_def private_inverse_transform_def check_is_fitted_def check_array_def
  np_T_def fit_scaled_rank_def fit_rank_def fit_bound_def fit_factor_def scale_rank_def
  unclipped_rank_def drop_duplicates_def np_unique_index_def first_index_def argsort_def
  interp1d_def interp1d_call_def call_linear_def searchsorted_def np_index_def np_clip_def
  np_maximum_def np_minimum_def np_sub_def inf_of_sign_def default_scaler_def
  GuassRankScaler_init_def Let_def

lemma fit_two_columns:
  "fit default_scaler [[Fin 1, Fin 2], [Fin 2, Fin 5]] =
     (default_scaler\<lparr>interp_func := Some
        [\<lparr>interp_x = [Fin 1, Fin 2], interp_y = [Fin (- (9999 / 10000)), Fin (9999 / 10000)]\<rparr>,
         \<lparr>interp_x = [Fin 2, Fin 5], interp_y = [Fin (- (9999 / 10000)), Fin (9999 / 10000)]\<rparr>]\<rparr>,
      Inr ())"
  by (simp add: eval_defs)

lemma np_T_column:
  assumes "cols \<noteq> []" and "\<forall>c\<in>set cols. length c = n" and "j < length cols"
  shows "map (\<lambda>row. row ! j) (np_T cols) = cols ! j"
proof -
  from assms have hd: "length (hd cols) = n" by (cases cols) auto
  have len: "length (cols ! j) = n" using assms by simp
  have "map (\<lambda>row. row ! j) (np_T cols) = map (\<lambda>r. cols ! j ! r) [0..<n]"
    using assms(3) by (simp add: np_T_def hd)
  also have "\<dots> = cols ! j" using len map_nth [of "cols ! j"] by simp
  finally show ?thesis .
qed

lemma private_transform_length:
  "private_transform erfinv s i a = Inr c \<Longrightarrow> length c = length a"
  by (auto simp: private_transform_def interp1d_call_def split: option.splits if_splits)

lemma private_inverse_transform_length:
  "private_inverse_transform erf s i a = Inr c \<Longrightarrow> length c = length a"
  by (auto simp: private_inverse_transform_def interp1d_call_def
      split: option.splits if_splits sum.splits)

lemma Parallel_columns:
  assumes p: "Parallel n (map (\<lambda>(i, a) u. F i a) (enumerate 0 (np_T X'))) = Inr cols"
    and c: "check_array X = Inr X'"
    and len: "\<And>i a c. F i a = Inr c \<Longrightarrow> length c = length a"
    and j: "j < length (hd X)"
  shows "F j (map (\<lambda>row. row ! j) X') = Inr (map (\<lambda>row. row ! j) (np_T cols))"
proof -
  note v = validated_shape [OF c]
  from Parallel_Inr_D [OF p] have lc: "length cols = length (hd X)"
    and nth: "\<forall>k<length (hd X). F k (np_T X' ! k) = Inr (cols ! k)"
    by (simp_all add: np_T_length v(2) nth_enumerate_eq)
  have all: "\<forall>c\<in>set cols. length c = length X"
  proof
    fix c assume "c \<in> set cols"
    then obtain k where k: "k < length cols" "c = cols ! k" by (auto simp: in_set_conv_nth)
    with nth lc have "F k (np_T X' ! k) = Inr c" by simp
    from len [OF this] have "length c = length (np_T X' ! k)" .
    also have "\<dots> = length X" using v(4) k(1) lc v(2) by (simp add: np_T_length)
    finally show "length c = length X" .
  qed
  have ne: "cols \<noteq> []" using lc j by auto
  have "map (\<lambda>row. row ! j) (np_T cols) = cols ! j"
    by (rule np_T_column [OF ne all]) (use lc j in simp)
  moreover have "F j (np_T X' ! j) = Inr (cols ! j)" using nth j by simp
  moreover have "np_T X' ! j = map (\<lambda>row. row ! j) X'" using j v(2) by (simp add: np_T_nth)
  ultimately show ?thesis by simp
qed

lemma transform_columns:
  assumes "check_array X = Inr X'" and "snd (transform erfinv s X) = Inr Y"
    and "j < length (hd X)"
  shows "private_transform erfinv s j (map (\<lambda>row. row ! j) X') = Inr (map (\<lambda>row. row ! j) Y)"
proof -
  from assms(1,2) obtain cols where
    p: "Parallel (n_jobs s) (map (\<lambda>(i, a) u. private_transform erfinv s i a) (enumerate 0 (np_T X')))
          = Inr cols" and Y: "Y = np_T cols"
    by (auto simp: transform_def split: sum.splits)
  show ?thesis unfolding Y using assms(1,3)
    by (intro Parallel_columns [OF p, of X]) (simp_all add: private_transform_length)
qed

lemma inverse_transform_columns:
  assumes "check_array X = Inr X'" and "snd (inverse_transform erf s X) = Inr Y"
    and "j < length (hd X)"
  shows "private_inverse_transform erf s j (map (\<lambda>row. row ! j) X')
         = Inr (map (\<lambda>row. row ! j) Y)"
proof -
  from assms(1,2) obtain cols where
    p: "Parallel (n_jobs s)
          (map (\<lambda>(i, a) u. private_inverse_transform erf s i a) (enumerate 0 (np_T X')))
          = Inr cols" and Y: "Y = np_T cols"
    by (auto simp: inverse_transform_def split: sum.splits)
  show ?thesis unfolding Y using assms(1,3)
    by (intro Parallel_columns [OF p, of X]) (simp_all add: private_inverse_transform_length)
qed
section \<open>Deduplication\<close>

lemma first_index_less: "v \<in> set a \<Longrightarrow> first_index a v < length a"
proof -
  assume "v \<in> set a"
  then have "takeWhile (\<lambda>e. e \<noteq> v) a \<noteq> a" by auto
  then have "length (takeWhile (\<lambda>e. e \<noteq> v) a) \<noteq> length a"
    by (metis takeWhile_eq_take take_all_iff order_refl)
  with length_takeWhile_le [of "\<lambda>e. e \<noteq> v" a] show ?thesis
    by (simp add: first_index_def)
qed

lemma nth_first_index: "v \<in> set a \<Longrightarrow> a ! first_index a v = v"
  using nth_length_takeWhile [of "\<lambda>e. e \<noteq> v" a] first_index_less [of v a]
  by (simp add: first_index_def)

lemma zip_map_upt: "zip a (map f [0..<length a]) = map (\<lambda>i. (a ! i, f i)) [0..<length a]"
  by (rule nth_equalityI) simp_all

lemma drop_duplicates_eq:
  "drop_duplicates a = map (\<lambda>i. a ! i) (filter (\<lambda>i. first_index a (a ! i) = i) [0..<length a])"
proof -
  have k: "(i \<in> set (np_unique_index a)) = (first_index a (a ! i) = i)" if "i < length a" for i
  proof
    assume "i \<in> set (np_unique_index a)"
    then obtain v where "v \<in> set a" "i = first_index a v" by (auto simp: np_unique_index_def)
    then show "first_index a (a ! i) = i" by (simp add: nth_first_index)
  next
    assume "first_index a (a ! i) = i"
    then have "i \<in> first_index a ` set a" using that by (metis imageI nth_mem)
    then show "i \<in> set (np_unique_index a)" by (simp add: np_unique_index_def)
  qed
  have "filter (\<lambda>i. i \<in> set (np_unique_index a)) [0..<length a]
        = filter (\<lambda>i. first_index a (a ! i) = i) [0..<length a]"
    by (rule filter_cong) (simp_all add: k)
  then show ?thesis
    by (simp add: drop_duplicates_def Let_def zip_map_upt filter_map comp_def)
qed

lemma set_drop_duplicates [simp]: "set (drop_duplicates a) = set a"
proof
  show "set (drop_duplicates a) \<subseteq> set a" by (auto simp: drop_duplicates_eq)
  show "set a \<subseteq> set (drop_duplicates a)"
  proof
    fix v assume v: "v \<in> set a"
    let ?i = "first_index a v"
    have "?i < length a" "a ! ?i = v" using v by (simp_all add: first_index_less nth_first_index)
    then show "v \<in> set (drop_duplicates a)" by (force simp: drop_duplicates_eq)
  qed
qed

lemma distinct_drop_duplicates [simp]: "distinct (drop_duplicates a)"
proof -
  have "inj_on (\<lambda>i. a ! i) (set (filter (\<lambda>i. first_index a (a ! i) = i) [0..<length a]))"
  proof (rule inj_onI)
    fix i j
    assume "i \<in> set (filter (\<lambda>i. first_index a (a ! i) = i) [0..<length a])"
      and "j \<in> set (filter (\<lambda>i. first_index a (a ! i) = i) [0..<length a])"
      and e: "a ! i = a ! j"
    then have fi: "first_index a (a ! i) = i" and fj: "first_index a (a ! j) = j" by simp_all
    from fi have "i = first_index a (a ! j)" unfolding e by (rule sym)
    then show "i = j" unfolding fj .
  qed
  then show ?thesis unfolding drop_duplicates_eq by (simp add: distinct_map)
qed

lemma length_drop_duplicates: "length (drop_duplicates a) \<le> length a"
  unfolding drop_duplicates_eq using length_filter_le [of _ "[0..<length a]"] by simp

lemma drop_duplicates_distinct: "distinct a \<Longrightarrow> drop_duplicates a = a"
proof -
  assume d: "distinct a"
  have "first_index a (a ! i) = i" if "i < length a" for i
    using that d first_index_less [of "a ! i" a] nth_first_index [of "a ! i" a]
    by (simp add: nth_eq_iff_index_eq)
  then have "filter (\<lambda>i. first_index a (a ! i) = i) [0..<length a] = [0..<length a]"
    by (simp add: filter_id_conv)
  then show ?thesis by (simp add: drop_duplicates_eq map_nth)
qed

lemma drop_duplicates_single:
  assumes "set a = {v}"
  shows "drop_duplicates a = [v]"
proof -
  have "card (set (drop_duplicates a)) = 1" using assms by simp
  then have "length (drop_duplicates a) = 1"
    using distinct_card [OF distinct_drop_duplicates, of a] by simp
  then obtain w where "drop_duplicates a = [w]"
    by (cases "drop_duplicates a") auto
  moreover from this have "w \<in> set a" using set_drop_duplicates [of a] by (metis list.set_intros(1))
  ultimately show ?thesis using assms by simp
qed

section \<open>Ranks and the fitted control points\<close>

lemma argsort_pairs:
  "p \<in> set (sort_key (\<lambda>p. key (fst p)) (zip a [0..<length a])) \<Longrightarrow>
   snd p < length a \<and> fst p = a ! snd p"
  by (cases p) (auto simp: in_set_zip)

lemma set_argsort: "set (argsort key a) = {..<length a}"
proof -
  have "set (argsort key a) = snd ` set (zip a [0..<length a])"
    by (simp add: argsort_def)
  also have "\<dots> = set (map snd (zip a [0..<length a]))" by (simp only: set_map)
  also have "map snd (zip a [0..<length a]) = [0..<length a]" by simp
  also have "set [0..<length a] = {..<length a}" by (simp add: atLeast_upt)
  finally show ?thesis .
qed

lemma distinct_argsort: "distinct (argsort key a)"
proof -
  have "distinct (zip a [0..<length a])" by (rule distinct_zipI2) simp
  moreover have "inj_on snd (set (zip a [0..<length a]))"
    by (rule inj_onI) (auto simp: in_set_zip)
  ultimately show ?thesis by (simp add: argsort_def distinct_map)
qed

lemma nth_argsort_less: "k < length a \<Longrightarrow> argsort key a ! k < length a"
  using set_argsort [of key a] nth_mem [of k "argsort key a"] by auto

lemma sorted_argsort: "sorted (map (\<lambda>i. key (a ! i)) (argsort key a))"
proof -
  let ?S = "sort_key (\<lambda>p. key (fst p)) (zip a [0..<length a])"
  have "map (\<lambda>i. key (a ! i)) (argsort key a) = map (\<lambda>p. key (fst p)) ?S"
    unfolding argsort_def map_map
    by (rule map_cong [OF refl]) (simp add: argsort_pairs del: set_sort)
  then show ?thesis by (simp add: sorted_sort_key)
qed

lemma map_nth_argsort:
  fixes u :: "'a::linorder list"
  assumes "distinct u"
  shows "map (\<lambda>i. u ! i) (argsort id u) = sort u"
proof (rule sorted_distinct_set_unique)
  show "sorted (map (\<lambda>i. u ! i) (argsort id u))" using sorted_argsort [of id u] by simp
  have "inj_on (\<lambda>i. u ! i) {..<length u}"
    by (rule inj_onI) (use assms in \<open>simp add: nth_eq_iff_index_eq\<close>)
  then show "distinct (map (\<lambda>i. u ! i) (argsort id u))"
    by (simp add: distinct_map distinct_argsort set_argsort)
  show "sorted (sort u)" by simp
  show "distinct (sort u)" using assms by simp
  have "(\<lambda>i. u ! i) ` {..<length u} = set u"
    by (auto simp: in_set_conv_nth)
  then show "set (map (\<lambda>i. u ! i) (argsort id u)) = set (sort u)"
    by (simp add: set_argsort)
qed

lemma sort_perm_upt:
  assumes "set p = {..<m}" and "distinct p"
  shows "sort p = [0..<m]"
  by (rule sorted_distinct_set_unique) (use assms in \<open>simp_all add: atLeast_upt\<close>)

lemma argsort_inverse:
  assumes "set p = {..<m}" and "distinct p" and "length p = m" and "k < m"
  shows "p ! (argsort id p ! k) = k" and "argsort id p ! (p ! k) = k"
proof -
  let ?q = "argsort id p"
  have "map (\<lambda>i. p ! i) ?q = [0..<m]"
    using map_nth_argsort [OF assms(2)] sort_perm_upt [OF assms(1,2)] by simp
  then have pq: "p ! (?q ! j) = j" if "j < m" for j
    using that assms(3) by (metis add_0 length_argsort nth_map nth_upt)
  show "p ! (?q ! k) = k" using pq assms(4) by simp
  have "p ! k < m" using assms by (metis lessThan_iff nth_mem)
  then have "p ! (?q ! (p ! k)) = p ! k" by (rule pq)
  moreover have "?q ! (p ! k) < length p"
    using nth_argsort_less [of "p ! k" p id] \<open>p ! k < m\<close> assms(3) by simp
  ultimately show "?q ! (p ! k) = k"
    using assms(2,3,4) by (simp add: nth_eq_iff_index_eq)
qed

lemma fit_rank_props:
  assumes "u = drop_duplicates a" and "k < length u"
  shows "length (fit_rank a) = length u"
    and "set (fit_rank a) = {..<length u}"
    and "sort u ! (fit_rank a ! k) = u ! k"
    and "fit_rank a ! (argsort id u ! k) = k"
proof -
  let ?p = "argsort id u"
  have d: "distinct u" using assms(1) by simp
  have p: "set ?p = {..<length u}" "distinct ?p" "length ?p = length u"
    by (simp_all add: set_argsort distinct_argsort)
  have r: "fit_rank a = argsort id ?p" by (simp add: fit_rank_def assms(1))
  show "length (fit_rank a) = length u" by (simp add: r)
  show "set (fit_rank a) = {..<length u}" by (simp add: r set_argsort)
  have "sort u ! (fit_rank a ! k) = map (\<lambda>i. u ! i) ?p ! (fit_rank a ! k)"
    by (simp add: map_nth_argsort [OF d])
  also have "\<dots> = u ! (?p ! (fit_rank a ! k))"
    using nth_argsort_less [of k ?p id] assms(2) by (simp add: r)
  also have "\<dots> = u ! k" using argsort_inverse(1) [OF p assms(2)] by (simp add: r)
  finally show "sort u ! (fit_rank a ! k) = u ! k" .
  show "fit_rank a ! (argsort id u ! k) = k"
    using argsort_inverse(2) [OF p assms(2)] by (simp add: r)
qed

lemma argsort_unique:
  fixes u :: "'a::linorder list"
  assumes "distinct u" and "set p = {..<length u}" and "distinct p"
    and "sorted (map (\<lambda>i. u ! i) p)"
  shows "p = argsort id u"
proof -
  have inj: "inj_on (\<lambda>i. u ! i) {..<length u}"
    by (rule inj_onI) (use assms(1) in \<open>simp add: nth_eq_iff_index_eq\<close>)
  have img: "(\<lambda>i. u ! i) ` {..<length u} = set u"
    by (auto simp: in_set_conv_nth)
  have "map (\<lambda>i. u ! i) p = sort u"
  proof (rule sorted_distinct_set_unique)
    show "sorted (map (\<lambda>i. u ! i) p)" by (rule assms(4))
    show "distinct (map (\<lambda>i. u ! i) p)" using inj assms(2,3) by (simp add: distinct_map)
    show "sorted (sort u)" by simp
    show "distinct (sort u)" using assms(1) by simp
    show "set (map (\<lambda>i. u ! i) p) = set (sort u)" using img assms(2) by simp
  qed
  then have "map (\<lambda>i. u ! i) p = map (\<lambda>i. u ! i) (argsort id u)"
    by (simp add: map_nth_argsort [OF assms(1)])
  moreover have "inj_on (\<lambda>i. u ! i) (set p \<union> set (argsort id u))"
    using inj assms(2) by (simp add: set_argsort)
  ultimately show ?thesis by (simp add: inj_on_map_eq_map)
qed

lemma argsort_np_key_Fin:
  assumes "distinct u"
  shows "argsort np_key (map Fin u) = argsort id u"
proof (rule argsort_unique [OF assms])
  let ?p = "argsort np_key (map Fin u)"
  show "set ?p = {..<length u}" by (simp add: set_argsort)
  show "distinct ?p" by (rule distinct_argsort)
  have "sorted (map (\<lambda>i. np_key (map Fin u ! i)) ?p)" by (rule sorted_argsort)
  then have "sorted_wrt (\<lambda>i j. np_key (map Fin u ! i) \<le> np_key (map Fin u ! j)) ?p"
    by (simp add: sorted_map)
  then have "sorted_wrt (\<lambda>i j. u ! i \<le> u ! j) ?p"
  proof (rule sorted_wrt_mono_rel [rotated])
    fix i j
    assume "i \<in> set ?p" "j \<in> set ?p"
      and le: "np_key (map Fin u ! i) \<le> np_key (map Fin u ! j)"
    then have "i < length u" "j < length u" by (simp_all add: set_argsort)
    with le show "u ! i \<le> u ! j" by simp
  qed
  then show "sorted (map (\<lambda>i. u ! i) ?p)" by (simp add: sorted_map)
qed

lemma np_max_perm:
  assumes "set r = {..<m}" and "0 < m"
  shows "np_max r = Inr (m - 1)"
proof -
  from assms obtain x xs where r: "r = x # xs" by (cases r) auto
  have "fold max xs x = Max (set (x # xs))" by (rule Max.set_eq_fold [symmetric])
  also have "\<dots> = Max {..<m}" using assms(1) r by simp
  also have "\<dots> = m - 1"
    by (rule Max_eqI) (use assms(2) in auto)
  finally show ?thesis by (simp add: r)
qed

lemma interp1d_Inr:
  "length xs = length ys \<Longrightarrow> xs \<noteq> [] \<Longrightarrow>
   interp1d xs ys = Inr \<lparr>interp_x = map (\<lambda>i. xs ! i) (argsort np_key xs),
                        interp_y = map (\<lambda>i. ys ! i) (argsort np_key xs)\<rparr>"
  by (cases xs) (auto simp: interp1d_def Let_def)

lemma private_fit_eq:
  assumes "a \<noteq> []"
  shows "private_fit s a =
    Inr \<lparr>interp_x = map Fin (sort (drop_duplicates a)),
         interp_y = map (scale_rank (fit_bound s)
                           (fit_factor s (length (drop_duplicates a) - 1)))
                      [0..<length (drop_duplicates a)]\<rparr>"
proof -
  let ?u = "drop_duplicates a"
  let ?m = "length ?u"
  let ?p = "argsort id ?u"
  let ?sc = "scale_rank (fit_bound s) (fit_factor s (?m - 1))"
  have d: "distinct ?u" by simp
  have "set ?u = set a" by (rule set_drop_duplicates)
  then have "?u \<noteq> []" using assms by (metis set_empty)
  then have m: "0 < ?m" by simp
  have len: "length (fit_rank a) = ?m" and set: "set (fit_rank a) = {..<?m}"
    using fit_rank_props(1,2) [OF refl, of 0 a] m by simp_all
  have mx: "np_max (fit_rank a) = Inr (?m - 1)" by (rule np_max_perm [OF set m])
  have sr: "fit_scaled_rank s a = Inr (map ?sc (fit_rank a))"
    by (simp add: fit_scaled_rank_def Let_def mx)
  have ind: "argsort np_key (map Fin ?u) = ?p" by (rule argsort_np_key_Fin [OF d])
  have lt: "\<And>i. i \<in> set ?p \<Longrightarrow> i < ?m" by (simp add: set_argsort)
  have x: "map (\<lambda>i. map Fin ?u ! i) ?p = map Fin (sort ?u)"
  proof -
    have "map (\<lambda>i. map Fin ?u ! i) ?p = map (\<lambda>i. Fin (?u ! i)) ?p"
      by (rule map_cong [OF refl]) (simp add: lt)
    also have "\<dots> = map Fin (map (\<lambda>i. ?u ! i) ?p)" by (simp add: comp_def)
    finally show ?thesis by (simp add: map_nth_argsort [OF d])
  qed
  have y: "map (\<lambda>i. map ?sc (fit_rank a) ! i) ?p = map ?sc [0..<?m]"
  proof (rule nth_equalityI)
    show "length (map (\<lambda>i. map ?sc (fit_rank a) ! i) ?p) = length (map ?sc [0..<?m])"
      by simp
    fix k assume "k < length (map (\<lambda>i. map ?sc (fit_rank a) ! i) ?p)"
    then have k: "k < ?m" by simp
    then have "?p ! k < ?m" by (simp add: nth_argsort_less)
    then show "map (\<lambda>i. map ?sc (fit_rank a) ! i) ?p ! k = map ?sc [0..<?m] ! k"
      using k fit_rank_props(4) [OF refl k] by (simp add: len)
  qed
  have "interp1d (map Fin ?u) (map ?sc (fit_rank a))
        = Inr \<lparr>interp_x = map (\<lambda>i. map Fin ?u ! i) (argsort np_key (map Fin ?u)),
               interp_y = map (\<lambda>i. map ?sc (fit_rank a) ! i) (argsort np_key (map Fin ?u))\<rparr>"
    by (rule interp1d_Inr) (use m in \<open>simp_all add: len\<close>)
  then have "interp1d (map Fin ?u) (map ?sc (fit_rank a))
        = Inr \<lparr>interp_x = map Fin (sort ?u), interp_y = map ?sc [0..<?m]\<rparr>"
    unfolding ind x y .
  then show ?thesis unfolding private_fit_def sr by simp
qed

lemma sorted_nth0_Min:
  fixes xs :: "'a::linorder list"
  assumes "sorted xs" and "xs \<noteq> []"
  shows "xs ! 0 = Min (set xs)"
proof (rule sym, rule Min_eqI)
  show "finite (set xs)" by simp
  show "xs ! 0 \<in> set xs" using assms(2) by simp
  fix y assume "y \<in> set xs"
  then obtain i where "i < length xs" "y = xs ! i" by (auto simp: in_set_conv_nth)
  then show "xs ! 0 \<le> y" using sorted_nth_mono [OF assms(1), of 0 i] by simp
qed

lemma sorted_last_Max:
  fixes xs :: "'a::linorder list"
  assumes "sorted xs" and "xs \<noteq> []"
  shows "xs ! (length xs - 1) = Max (set xs)"
proof (rule sym, rule Max_eqI)
  show "finite (set xs)" by simp
  show "xs ! (length xs - 1) \<in> set xs" using assms(2) by simp
  fix y assume "y \<in> set xs"
  then obtain i where "i < length xs" "y = xs ! i" by (auto simp: in_set_conv_nth)
  then show "y \<le> xs ! (length xs - 1)"
    using sorted_nth_mono [OF assms(1), of i "length xs - 1"] by simp
qed

lemma np_clip_Fin: "np_clip (Fin v) (Fin lo) (Fin hi) = Fin (min (max v lo) hi)"
  by (simp add: np_clip_def np_maximum_def np_minimum_def min_def max_def)

lemma unclipped_rank_Fin:
  "f \<noteq> 0 \<Longrightarrow> unclipped_rank b f r = Fin (real r / f - b)"
  by (simp add: unclipped_rank_def np_sub_def)

lemma scale_rank_Fin:
  "f \<noteq> 0 \<Longrightarrow> scale_rank b f r = Fin (min (max (real r / f - b) (- b)) b)"
  by (simp add: scale_rank_def unclipped_rank_Fin np_clip_Fin)

lemma fit_factor_pos:
  "0 < mx \<Longrightarrow> epsilon s < 1 \<Longrightarrow> 0 < fit_factor s mx"
  by (simp add: fit_factor_def fit_bound_def)

lemma length_drop_duplicates_card: "length (drop_duplicates a) = card (set a)"
  using distinct_card [OF distinct_drop_duplicates, of a] by simp

lemma strict_sorted_count_less:
  fixes xs :: "'a::linorder list"
  assumes "sorted xs" and "distinct xs" and "j < length xs"
  shows "length (filter (\<lambda>v. v < xs ! j) xs) = j"
proof -
  have st: "sorted_wrt (<) xs" using assms(1,2) by (simp add: strict_sorted_iff)
  have "{i. i < length xs \<and> xs ! i < xs ! j} = {..<j}"
  proof (rule set_eqI)
    fix i
    show "i \<in> {i. i < length xs \<and> xs ! i < xs ! j} \<longleftrightarrow> i \<in> {..<j}"
    proof
      assume "i \<in> {i. i < length xs \<and> xs ! i < xs ! j}"
      then have i: "i < length xs" "xs ! i < xs ! j" by simp_all
      have "\<not> j \<le> i"
      proof
        assume "j \<le> i"
        then have "xs ! j \<le> xs ! i" using sorted_nth_mono [OF assms(1)] i(1) by simp
        with i(2) show False by simp
      qed
      then show "i \<in> {..<j}" by simp
    next
      assume "i \<in> {..<j}"
      then have "i < j" by simp
      then have "xs ! i < xs ! j" using sorted_wrt_nth_less [OF st] assms(3) by simp
      then show "i \<in> {i. i < length xs \<and> xs ! i < xs ! j}"
        using \<open>i < j\<close> assms(3) by simp
    qed
  qed
  then show ?thesis by (simp add: length_filter_conv_card)
qed

lemma fit_rank_counts:
  assumes "k < length (drop_duplicates a)"
  shows "fit_rank a ! k
         = length (filter (\<lambda>v. v < drop_duplicates a ! k) (drop_duplicates a))"
proof -
  let ?u = "drop_duplicates a"
  let ?j = "fit_rank a ! k"
  have d: "distinct ?u" by simp
  have "?j \<in> set (fit_rank a)"
    using fit_rank_props(1) [OF refl assms] assms by simp
  then have j: "?j < length (sort ?u)"
    using fit_rank_props(2) [OF refl assms] by simp
  have e: "sort ?u ! ?j = ?u ! k" by (rule fit_rank_props(3) [OF refl assms])
  have "length (filter (\<lambda>v. v < ?u ! k) ?u) = card ({v. v < ?u ! k} \<inter> set ?u)"
    by (rule distinct_length_filter [OF d])
  also have "\<dots> = card ({v. v < ?u ! k} \<inter> set (sort ?u))" by simp
  also have "\<dots> = length (filter (\<lambda>v. v < ?u ! k) (sort ?u))"
    by (rule distinct_length_filter [symmetric]) (simp add: d)
  also have "\<dots> = length (filter (\<lambda>v. v < sort ?u ! ?j) (sort ?u))" by (simp only: e)
  also have "\<dots> = ?j"
    by (rule strict_sorted_count_less [OF _ _ j]) (simp_all add: d)
  finally show ?thesis by simp
qed

section \<open>Evaluating the interpolator outside its range\<close>

lemma searchsorted_Fin:
  "searchsorted (map Fin us) (Fin x) = length (takeWhile (\<lambda>u. u < x) us)"
  by (simp add: searchsorted_def takeWhile_map comp_def)

lemma np_index_nat: "np_index xs (int k) = xs ! k"
  by (simp add: np_index_def)

lemma call_linear_Fin:
  assumes "length qs = length us" and "2 \<le> length us"
    and "hi = nat (min (max (int (length (takeWhile (\<lambda>u. u < x) us))) 1) (int (length us) - 1))"
    and "us ! hi \<noteq> us ! (hi - 1)"
  shows "call_linear \<lparr>interp_x = map Fin us, interp_y = map Fin qs\<rparr> (Fin x)
         = Fin ((qs ! hi - qs ! (hi - 1)) / (us ! hi - us ! (hi - 1)) * (x - us ! (hi - 1))
                + qs ! (hi - 1))"
proof -
  have h: "1 \<le> hi" "hi < length us" using assms(2,3) by auto
  have i: "min (max (int (length (takeWhile (\<lambda>u. u < x) us))) 1) (int (length us) - 1) = int hi"
    using assms(2,3) by auto
  have l: "int hi - 1 = int (hi - 1)" using h(1) by simp
  have n: "hi - 1 < length us" using h by simp
  show ?thesis
    unfolding call_linear_def Let_def interp1d_obj.simps searchsorted_Fin length_map i l np_index_nat
    using h n assms(1,4) by (simp add: np_sub_def)
qed

lemma call_linear_below:
  assumes "length qs = length us" and "2 \<le> length us" and "sorted_wrt (<) us" and "x < us ! 0"
  shows "call_linear \<lparr>interp_x = map Fin us, interp_y = map Fin qs\<rparr> (Fin x)
         = Fin ((qs ! 1 - qs ! 0) / (us ! 1 - us ! 0) * (x - us ! 0) + qs ! 0)"
proof -
  obtain u0 us' where us: "us = u0 # us'" using assms(2) by (cases us) auto
  have tw: "takeWhile (\<lambda>u. u < x) us = []" using assms(4) us by simp
  have lt: "us ! 0 < us ! 1" using sorted_wrt_nth_less [OF assms(3), of 0 1] assms(2) by simp
  have "call_linear \<lparr>interp_x = map Fin us, interp_y = map Fin qs\<rparr> (Fin x)
         = Fin ((qs ! 1 - qs ! (1 - 1)) / (us ! 1 - us ! (1 - 1)) * (x - us ! (1 - 1))
                + qs ! (1 - 1))"
    by (rule call_linear_Fin [OF assms(1,2)]) (use assms(2) lt in \<open>simp_all add: tw\<close>)
  then show ?thesis by simp
qed

lemma call_linear_above:
  assumes "length qs = length us" and "2 \<le> length us" and "sorted_wrt (<) us"
    and "us ! (length us - 1) < x"
  shows "call_linear \<lparr>interp_x = map Fin us, interp_y = map Fin qs\<rparr> (Fin x)
         = Fin ((qs ! (length us - 1) - qs ! (length us - 2))
                  / (us ! (length us - 1) - us ! (length us - 2)) * (x - us ! (length us - 2))
                + qs ! (length us - 2))"
proof -
  have so: "sorted us" using assms(3) by (simp add: strict_sorted_iff)
  have "\<forall>u\<in>set us. u < x"
  proof
    fix u assume "u \<in> set us"
    then obtain i where "i < length us" "u = us ! i" by (auto simp: in_set_conv_nth)
    then have "u \<le> us ! (length us - 1)"
      using sorted_nth_mono [OF so, of i "length us - 1"] by simp
    with assms(4) show "u < x" by simp
  qed
  then have tw: "takeWhile (\<lambda>u. u < x) us = us" by simp
  have lt: "us ! (length us - 2) < us ! (length us - 1)"
    using sorted_wrt_nth_less [OF assms(3), of "length us - 2" "length us - 1"] assms(2)
    by simp
  have e: "length us - 1 - 1 = length us - 2" by simp
  have "call_linear \<lparr>interp_x = map Fin us, interp_y = map Fin qs\<rparr> (Fin x)
         = Fin ((qs ! (length us - 1) - qs ! (length us - 1 - 1))
                  / (us ! (length us - 1) - us ! (length us - 1 - 1))
                  * (x - us ! (length us - 1 - 1))
                + qs ! (length us - 1 - 1))"
  proof (rule call_linear_Fin [OF assms(1,2)])
    show "length us - 1
          = nat (min (max (int (length (takeWhile (\<lambda>u. u < x) us))) 1) (int (length us) - 1))"
      unfolding tw using assms(2) by auto
    show "us ! (length us - 1) \<noteq> us ! (length us - 1 - 1)"
      unfolding e using lt by (rule less_imp_neq [THEN not_sym])
  qed
  then show ?thesis unfolding e .
qed

lemma private_transform_eq:
  "interp_func s' = Some fs \<Longrightarrow> i < length fs \<Longrightarrow>
   private_transform erfinv s' i xs = Inr (map (\<lambda>x. erfinv (call_linear (fs ! i) (Fin x))) xs)"
  by (simp add: private_transform_def interp1d_call_def comp_def)

section \<open>Interpolation at the control points\<close>

lemma length_takeWhile_first:
  assumes "j < length xs" and "\<And>i. i < j \<Longrightarrow> P (xs ! i)" and "\<not> P (xs ! j)"
  shows "length (takeWhile P xs) = j"
proof -
  have "takeWhile P xs = take j xs"
    by (rule takeWhile_eq_take_P_nth) (use assms in auto)
  then show ?thesis using assms(1) by simp
qed

lemma call_linear_at_control:
  assumes "length qs = length us" and "2 \<le> length us" and "sorted_wrt (<) us"
    and "j < length us"
  shows "call_linear \<lparr>interp_x = map Fin us, interp_y = map Fin qs\<rparr> (Fin (us ! j)) = Fin (qs ! j)"
proof -
  have tw: "length (takeWhile (\<lambda>u. u < us ! j) us) = j"
    by (rule length_takeWhile_first [OF assms(4)])
      (use sorted_wrt_nth_less [OF assms(3)] assms(4) in auto)
  show ?thesis
  proof (cases j)
    case 0
    have lt: "us ! 0 < us ! 1" using sorted_wrt_nth_less [OF assms(3), of 0 1] assms(2) by simp
    have "call_linear \<lparr>interp_x = map Fin us, interp_y = map Fin qs\<rparr> (Fin (us ! j))
          = Fin ((qs ! 1 - qs ! (1 - 1)) / (us ! 1 - us ! (1 - 1)) * (us ! j - us ! (1 - 1))
                 + qs ! (1 - 1))"
    proof (rule call_linear_Fin [OF assms(1,2)])
      show "1 = nat (min (max (int (length (takeWhile (\<lambda>u. u < us ! j) us))) 1)
                       (int (length us) - 1))"
        unfolding tw using assms(2) 0 by auto
      show "us ! 1 \<noteq> us ! (1 - 1)" using lt by simp
    qed
    then show ?thesis using 0 by simp
  next
    case (Suc j')
    have lt: "us ! (j - 1) < us ! j"
      using sorted_wrt_nth_less [OF assms(3), of "j - 1" j] assms(4) Suc by simp
    have "call_linear \<lparr>interp_x = map Fin us, interp_y = map Fin qs\<rparr> (Fin (us ! j))
          = Fin ((qs ! j - qs ! (j - 1)) / (us ! j - us ! (j - 1)) * (us ! j - us ! (j - 1))
                 + qs ! (j - 1))"
    proof (rule call_linear_Fin [OF assms(1,2)])
      show "j = nat (min (max (int (length (takeWhile (\<lambda>u. u < us ! j) us))) 1)
                       (int (length us) - 1))"
        unfolding tw using assms(4) Suc by auto
      show "us ! j \<noteq> us ! (j - 1)" using lt by simp
    qed
    moreover have "(qs ! j - qs ! (j - 1)) / (us ! j - us ! (j - 1)) * (us ! j - us ! (j - 1))
                   = qs ! j - qs ! (j - 1)"
      using lt by simp
    ultimately show ?thesis by simp
  qed
qed

lemma argsort_sorted:
  assumes "sorted (map key xs)"
  shows "argsort key xs = [0..<length xs]"
proof -
  have "map (\<lambda>p. key (fst p)) (zip xs [0..<length xs]) = map key xs"
    by (rule nth_equalityI) simp_all
  then have "sorted (map (\<lambda>p. key (fst p)) (zip xs [0..<length xs]))" using assms by simp
  then have "sort_key (\<lambda>p. key (fst p)) (zip xs [0..<length xs]) = zip xs [0..<length xs]"
    by (rule sort_key_id_if_sorted)
  then show ?thesis by (simp add: argsort_def)
qed

lemma interp1d_sorted_Fin:
  assumes "sorted qs" and "length qs = length us" and "qs \<noteq> []"
  shows "interp1d (map Fin qs) (map Fin us) = Inr \<lparr>interp_x = map Fin qs, interp_y = map Fin us\<rparr>"
proof -
  have "sorted (map np_key (map Fin qs))"
    using assms(1) by (simp add: sorted_map comp_def sorted_wrt_map)
  then have a: "argsort np_key (map Fin qs) = [0..<length qs]"
    using argsort_sorted [of np_key "map Fin qs"] by simp
  have "interp1d (map Fin qs) (map Fin us)
        = Inr \<lparr>interp_x = map (\<lambda>i. map Fin qs ! i) (argsort np_key (map Fin qs)),
               interp_y = map (\<lambda>i. map Fin us ! i) (argsort np_key (map Fin qs))\<rparr>"
    by (rule interp1d_Inr) (use assms in simp_all)
  moreover have "map (\<lambda>i. map Fin qs ! i) [0..<length qs] = map Fin qs"
    using map_nth [of "map Fin qs"] by simp
  moreover have "map (\<lambda>i. map Fin us ! i) [0..<length qs] = map Fin us"
    using map_nth [of "map Fin us"] assms(2) by simp
  ultimately show ?thesis unfolding a by simp
qed

text \<open>
  The inverse interpolator at a control quantile answers with the first control
  value that holds this quantile.
\<close>

lemma call_linear_inverse_at:
  assumes "length us = length qs" and "2 \<le> length qs" and "sorted qs"
    and "qs ! 0 < qs ! 1" and "j < length qs"
    and "j0 = length (takeWhile (\<lambda>v. v < qs ! j) qs)"
  shows "call_linear \<lparr>interp_x = map Fin qs, interp_y = map Fin us\<rparr> (Fin (qs ! j)) = Fin (us ! j0)"
proof -
  have j0j: "j0 \<le> j"
  proof (rule ccontr)
    assume "\<not> j0 \<le> j"
    then have "j < length (takeWhile (\<lambda>v. v < qs ! j) qs)" using assms(6) by simp
    then have "takeWhile (\<lambda>v. v < qs ! j) qs ! j \<in> set (takeWhile (\<lambda>v. v < qs ! j) qs)"
      by (rule nth_mem)
    moreover have "takeWhile (\<lambda>v. v < qs ! j) qs ! j = qs ! j"
      using \<open>j < length (takeWhile (\<lambda>v. v < qs ! j) qs)\<close> by (rule takeWhile_nth)
    ultimately have "qs ! j \<in> set (takeWhile (\<lambda>v. v < qs ! j) qs)" by simp
    then have "qs ! j < qs ! j" using set_takeWhileD by fastforce
    then show False by simp
  qed
  then have j0l: "j0 < length qs" using assms(5) by simp
  have ge: "\<not> qs ! j0 < qs ! j"
    using nth_length_takeWhile [of "\<lambda>v. v < qs ! j" qs] j0l assms(6) by simp
  have "qs ! j0 \<le> qs ! j" using sorted_nth_mono [OF assms(3) j0j assms(5)] .
  with ge have eq: "qs ! j0 = qs ! j" by simp
  have before: "qs ! i < qs ! j" if "i < j0" for i
  proof -
    have l: "i < length (takeWhile (\<lambda>v. v < qs ! j) qs)" using that assms(6) by simp
    have "takeWhile (\<lambda>v. v < qs ! j) qs ! i \<in> set (takeWhile (\<lambda>v. v < qs ! j) qs)"
      using l by (rule nth_mem)
    then have "takeWhile (\<lambda>v. v < qs ! j) qs ! i < qs ! j"
      using set_takeWhileD by fastforce
    then show ?thesis unfolding takeWhile_nth [OF l] .
  qed
  show ?thesis
  proof (cases j0)
    case 0
    have "call_linear \<lparr>interp_x = map Fin qs, interp_y = map Fin us\<rparr> (Fin (qs ! j))
          = Fin ((us ! 1 - us ! (1 - 1)) / (qs ! 1 - qs ! (1 - 1)) * (qs ! j - qs ! (1 - 1))
                 + us ! (1 - 1))"
      by (rule call_linear_Fin [OF assms(1,2)])
        (use assms(2,4) 0 in \<open>simp_all add: assms(6) [symmetric]\<close>)
    then show ?thesis using 0 eq by simp
  next
    case (Suc j')
    have lt: "qs ! (j0 - 1) < qs ! j0" using before [of "j0 - 1"] Suc eq by simp
    have "call_linear \<lparr>interp_x = map Fin qs, interp_y = map Fin us\<rparr> (Fin (qs ! j))
          = Fin ((us ! j0 - us ! (j0 - 1)) / (qs ! j0 - qs ! (j0 - 1)) * (qs ! j - qs ! (j0 - 1))
                 + us ! (j0 - 1))"
    proof (rule call_linear_Fin [OF assms(1,2)])
      show "j0 = nat (min (max (int (length (takeWhile (\<lambda>u. u < qs ! j) qs))) 1)
                       (int (length qs) - 1))"
        unfolding assms(6) [symmetric] using j0l Suc by auto
      show "qs ! j0 \<noteq> qs ! (j0 - 1)" using lt by simp
    qed
    moreover have "(us ! j0 - us ! (j0 - 1)) / (qs ! j0 - qs ! (j0 - 1)) * (qs ! j - qs ! (j0 - 1))
                   = us ! j0 - us ! (j0 - 1)"
      using lt eq by simp
    ultimately show ?thesis by simp
  qed
qed

lemma quantiles_sorted:
  fixes f b :: real
  assumes "0 < f"
  shows "sorted (map (\<lambda>k. min (max (real k / f - b) (- b)) b) [0..<m])"
proof -
  have "min (max (real i / f - b) (- b)) b \<le> min (max (real j / f - b) (- b)) b"
    if "i \<le> j" for i j :: nat
  proof -
    have "real i / f \<le> real j / f" using that assms by (simp add: divide_right_mono)
    then show ?thesis by linarith
  qed
  then show ?thesis by (simp add: sorted_iff_nth_mono)
qed

lemma private_fit_Fin:
  assumes "2 \<le> card (set a)" and "0 < epsilon s" and "epsilon s < 1"
  shows "private_fit s a
    = Inr \<lparr>interp_x = map Fin (sort (drop_duplicates a)),
           interp_y = map Fin (map (\<lambda>k. min (max (real k / fit_factor s (card (set a) - 1)
                                                - fit_bound s) (- fit_bound s)) (fit_bound s))
                                [0..<card (set a)])\<rparr>"
proof -
  let ?m = "card (set a)"
  let ?b = "fit_bound s"
  let ?f = "fit_factor s (?m - 1)"
  have f: "0 < ?f" by (rule fit_factor_pos [OF _ assms(3)]) (use assms(1) in simp)
  then have fne: "?f \<noteq> 0" by simp
  have ne: "a \<noteq> []" using assms(1) by auto
  have len: "length (drop_duplicates a) = ?m" by (rule length_drop_duplicates_card)
  have "map (scale_rank ?b ?f) [0..<?m]
        = map (\<lambda>k. Fin (min (max (real k / ?f - ?b) (- ?b)) ?b)) [0..<?m]"
    by (rule map_cong [OF refl]) (rule scale_rank_Fin [OF fne])
  also have "\<dots> = map Fin (map (\<lambda>k. min (max (real k / ?f - ?b) (- ?b)) ?b) [0..<?m])"
    unfolding map_map comp_def ..
  finally show ?thesis unfolding private_fit_eq [OF ne] len by (rule arg_cong)
qed

lemma feature_round_trip:
  fixes a :: "real list" and s :: GuassRankScaler
  defines "m \<equiv> card (set a)"
  defines "us \<equiv> sort (drop_duplicates a)"
  defines "qs \<equiv> map (\<lambda>k. min (max (real k / fit_factor s (m - 1) - fit_bound s)
                               (- fit_bound s)) (fit_bound s)) [0..<m]"
  assumes "2 \<le> card (set a)" and "0 < epsilon s" and "epsilon s < 1"
    and "private_fit s a = Inr f" and "interp_func s' = Some [f]" and "j < m"
    and "erfinv (Fin (qs ! j)) = Fin z" and "erf (Fin z) = Fin (qs ! j)"
  shows "private_transform erfinv s' 0 [us ! j] = Inr [Fin z] \<and>
         private_inverse_transform erf s' 0 [z]
           = Inr [Fin (us ! length (takeWhile (\<lambda>v. v < qs ! j) qs))]"
proof -
  let ?b = "fit_bound s"
  let ?f = "fit_factor s (m - 1)"
  have m2: "2 \<le> m" using assms(4) by (simp add: m_def)
  have b: "0 < ?b" using assms(6) by (simp add: fit_bound_def)
  have fp: "0 < ?f" by (rule fit_factor_pos [OF _ assms(6)]) (use m2 in simp)
  have f: "f = \<lparr>interp_x = map Fin us, interp_y = map Fin qs\<rparr>"
    using private_fit_Fin [OF assms(4,5,6)] assms(7) unfolding us_def qs_def m_def by simp
  have lus: "length us = m"
    unfolding us_def m_def by (simp add: length_drop_duplicates_card)
  have lqs: "length qs = m" by (simp add: qs_def)
  have st: "sorted_wrt (<) us" unfolding us_def by (simp add: strict_sorted_iff)
  have sq: "sorted qs" unfolding qs_def by (rule quantiles_sorted [OF fp])
  have qk: "qs ! k = min (max (real k / ?f - ?b) (- ?b)) ?b" if "k < m" for k
    using that by (simp add: qs_def)
  have "0 < 1 / ?f" using fp by simp
  then have "min (max (real 0 / ?f - ?b) (- ?b)) ?b < min (max (real 1 / ?f - ?b) (- ?b)) ?b"
    using b by simp
  then have q01: "qs ! 0 < qs ! 1" using qk [of 0] qk [of 1] m2 by simp
  have fw: "call_linear f (Fin (us ! j)) = Fin (qs ! j)"
    unfolding f by (rule call_linear_at_control) (use lus lqs m2 st assms(9) in simp_all)
  have inv: "interp1d (interp_y f) (interp_x f)
             = Inr \<lparr>interp_x = map Fin qs, interp_y = map Fin us\<rparr>"
    unfolding f interp1d_obj.simps
    by (rule interp1d_sorted_Fin [OF sq]) (use lus lqs m2 in auto)
  have bw: "call_linear \<lparr>interp_x = map Fin qs, interp_y = map Fin us\<rparr> (Fin (qs ! j))
            = Fin (us ! length (takeWhile (\<lambda>v. v < qs ! j) qs))"
    by (rule call_linear_inverse_at [OF _ _ sq q01 _ refl]) (use lus lqs m2 assms(9) in simp_all)
  have "private_transform erfinv s' 0 [us ! j] = Inr [Fin z]"
    using assms(8,10) fw by (simp add: private_transform_def interp1d_call_def)
  moreover have "private_inverse_transform erf s' 0 [z]
           = Inr [Fin (us ! length (takeWhile (\<lambda>v. v < qs ! j) qs))]"
    using assms(8,11) inv bw by (simp add: private_inverse_transform_def interp1d_call_def)
  ultimately show ?thesis by simp
qed

lemma feature_round_trip_exact:
  fixes a :: "real list" and s :: GuassRankScaler
  defines "m \<equiv> card (set a)"
  defines "us \<equiv> sort (drop_duplicates a)"
  defines "qs \<equiv> map (\<lambda>k. min (max (real k / fit_factor s (m - 1) - fit_bound s)
                               (- fit_bound s)) (fit_bound s)) [0..<m]"
  assumes "2 \<le> card (set a)" and "0 < epsilon s" and "epsilon s < 1"
    and "private_fit s a = Inr f" and "interp_func s' = Some [f]" and "j < m"
    and "erfinv (Fin (qs ! j)) = Fin z" and "erf (Fin z) = Fin (qs ! j)"
    and "j = 0 \<or> qs ! (j - 1) < qs ! j"
  shows "private_transform erfinv s' 0 [us ! j] = Inr [Fin z] \<and>
         private_inverse_transform erf s' 0 [z] = Inr [Fin (us ! j)]"
proof -
  have fp: "0 < fit_factor s (m - 1)"
    by (rule fit_factor_pos [OF _ assms(6)]) (use assms(4) in \<open>simp add: m_def\<close>)
  have sq: "sorted qs" unfolding qs_def by (rule quantiles_sorted [OF fp])
  have l: "length qs = m" by (simp add: qs_def)
  have "length (takeWhile (\<lambda>v. v < qs ! j) qs) = j"
  proof (rule length_takeWhile_first)
    show "j < length qs" using assms(9) l by simp
    show "\<not> qs ! j < qs ! j" by simp
    fix i assume i: "i < j"
    then have "qs ! i \<le> qs ! (j - 1)"
      using sorted_nth_mono [OF sq, of i "j - 1"] assms(9) l by simp
    moreover have "qs ! (j - 1) < qs ! j" using assms(12) i by simp
    ultimately show "qs ! i < qs ! j" by simp
  qed
  then show ?thesis
    using feature_round_trip [OF assms(4,5,6,7,8), of j erfinv z erf] assms(9,10,11)
    unfolding m_def us_def qs_def by simp
qed

subsection \<open>5003 distinct values with the default margin\<close>

lemma wide_column_props:
  "distinct wide_column" "sorted wide_column" "length wide_column = 5003"
  "card (set wide_column) = 5003" "wide_column \<noteq> []"
proof -
  show d: "distinct wide_column" by (simp add: wide_column_def distinct_map)
  show "sorted wide_column" by (simp add: wide_column_def sorted_iff_nth_mono)
  show l: "length wide_column = 5003" by (simp add: wide_column_def)
  show "card (set wide_column) = 5003" using distinct_card [OF d] l by simp
  show "wide_column \<noteq> []" using l by auto
qed

lemma wide_column_control:
  "sort (drop_duplicates wide_column) = wide_column"
  by (simp add: drop_duplicates_distinct wide_column_props sorted_sort_id)

lemma wide_column_nth: "k < 5003 \<Longrightarrow> wide_column ! k = real k"
  by (simp add: wide_column_def del: upt_rec_numeral)

lemma wide_quantiles:
  fixes qs :: "real list"
  defines "qs \<equiv> map (\<lambda>k. min (max (real k / fit_factor default_scaler 5002
                                      - fit_bound default_scaler)
                               (- fit_bound default_scaler)) (fit_bound default_scaler))
                    [0..<5003]"
  shows "qs ! 5002 = 9999 / 10000" and "length (takeWhile (\<lambda>v. v < 9999 / 10000) qs) = 5001"
    and "qs ! 5001 = 9999 / 10000"
proof -
  have fp: "0 < fit_factor default_scaler 5002"
    by (simp add: fit_factor_def fit_bound_def default_scaler_def GuassRankScaler_init_def)
  have sq: "sorted qs" unfolding qs_def by (rule quantiles_sorted [OF fp])
  have l: "length qs = 5003" by (simp add: qs_def)
  have q2: "qs ! 5002 = 9999 / 10000"
    by (simp add: qs_def fit_factor_def fit_bound_def default_scaler_def
        GuassRankScaler_init_def del: upt_rec_numeral)
  have q1: "qs ! 5001 = 9999 / 10000"
    by (simp add: qs_def fit_factor_def fit_bound_def default_scaler_def
        GuassRankScaler_init_def del: upt_rec_numeral)
  have q0: "qs ! 5000 < 9999 / 10000"
    by (simp add: qs_def fit_factor_def fit_bound_def default_scaler_def
        GuassRankScaler_init_def del: upt_rec_numeral)
  show "qs ! 5002 = 9999 / 10000" by (rule q2)
  show "qs ! 5001 = 9999 / 10000" by (rule q1)
  show "length (takeWhile (\<lambda>v. v < 9999 / 10000) qs) = 5001"
  proof (rule length_takeWhile_first)
    show "5001 < length qs" using l by simp
    show "\<not> qs ! 5001 < 9999 / 10000" using q1 by simp
    fix i :: nat assume "i < 5001"
    then have "qs ! i \<le> qs ! 5000" using sorted_nth_mono [OF sq, of i 5000] l by simp
    then show "qs ! i < 9999 / 10000" using q0 by simp
  qed
qed

lemma wide_round_trip:
  assumes "erfinv (Fin (9999 / 10000)) = Fin w" and "erf (Fin w) = Fin (9999 / 10000)"
    and "private_fit default_scaler wide_column = Inr f" and "interp_func s' = Some [f]"
  shows "private_transform erfinv s' 0 [5002] = Inr [Fin w] \<and>
         private_inverse_transform erf s' 0 [w] = Inr [Fin 5001]"
proof -
  have e: "0 < epsilon default_scaler" "epsilon default_scaler < 1"
    by (simp_all add: default_scaler_def GuassRankScaler_init_def)
  have c: "2 \<le> card (set wide_column)" by (simp add: wide_column_props)
  have m1: "(5003 :: nat) - 1 = 5002" by simp
  note t = feature_round_trip [OF c e assms(3,4), of 5002 erfinv w erf,
      unfolded wide_column_props(4) wide_column_control m1 wide_quantiles(1,2)]
  have "private_transform erfinv s' 0 [wide_column ! 5002] = Inr [Fin w] \<and>
        private_inverse_transform erf s' 0 [w] = Inr [Fin (wide_column ! 5001)]"
    by (rule t [OF _ assms(1,2)]) simp
  then show ?thesis by (simp add: wide_column_nth)
qed

lemma fit_wide_input:
  assumes "private_fit default_scaler wide_column = Inr f"
  shows "fit default_scaler wide_input = (default_scaler\<lparr>interp_func := Some [f]\<rparr>, Inr ())"
proof -
  let ?X' = "map (\<lambda>v. [v]) wide_column"
  obtain v vs where w: "wide_column = v # vs"
    using wide_column_props(5) by (cases wide_column) auto
  have "map (map Fin) ?X' = wide_input" by (simp add: wide_input_def comp_def)
  moreover have "check_array (map (map Fin) ?X') = Inr ?X'"
    by (rule check_array_Fin) (simp_all add: w list_all_iff)
  ultimately have c: "check_array wide_input = Inr ?X'" by simp
  have t: "np_T ?X' = [wide_column]"
    by (simp add: np_T_def w comp_def)
  show ?thesis by (simp add: fit_def c t assms)
qed

lemma transform_single:
  assumes "interp_func s' = Some fs" and "private_transform erfinv s' 0 [x] = Inr [y]"
  shows "snd (transform erfinv s' [[Fin x]]) = Inr [[y]]"
  using assms by (simp add: transform_def check_is_fitted_def check_array_def np_T_def)

lemma inverse_transform_single:
  assumes "interp_func s' = Some fs" and "private_inverse_transform erf s' 0 [x] = Inr [y]"
  shows "snd (inverse_transform erf s' [[Fin x]]) = Inr [[y]]"
  using assms by (simp add: inverse_transform_def check_is_fitted_def check_array_def np_T_def)

lemma wide_pipeline:
  assumes "erfinv (Fin (9999 / 10000)) = Fin w" and "erf (Fin w) = Fin (9999 / 10000)"
  shows "snd (fit default_scaler wide_input) = Inr () \<and>
         snd (transform erfinv (fst (fit default_scaler wide_input)) [[Fin 5002]]) = Inr [[Fin w]] \<and>
         snd (inverse_transform erf (fst (fit default_scaler wide_input)) [[Fin w]])
           = Inr [[Fin 5001]]"
proof -
  have e: "0 < epsilon default_scaler" "epsilon default_scaler < 1"
    by (simp_all add: default_scaler_def GuassRankScaler_init_def)
  have c: "2 \<le> card (set wide_column)" by (simp add: wide_column_props)
  from private_fit_Fin [OF c e] obtain f where f: "private_fit default_scaler wide_column = Inr f"
    by blast
  let ?s = "default_scaler\<lparr>interp_func := Some [f]\<rparr>"
  have fit: "fit default_scaler wide_input = (?s, Inr ())" by (rule fit_wide_input [OF f])
  have i: "interp_func ?s = Some [f]" by simp
  have r: "private_transform erfinv ?s 0 [5002] = Inr [Fin w] \<and>
           private_inverse_transform erf ?s 0 [w] = Inr [Fin 5001]"
    using assms f i by (rule wide_round_trip)
  have "snd (transform erfinv ?s [[Fin 5002]]) = Inr [[Fin w]]"
    by (rule transform_single [OF i]) (use r in simp)
  moreover have "snd (inverse_transform erf ?s [[Fin w]]) = Inr [[Fin 5001]]"
    by (rule inverse_transform_single [OF i]) (use r in simp)
  ultimately show ?thesis by (simp add: fit)
qed

lemma wide_control_points:
  assumes "private_fit default_scaler wide_column = Inr f"
  shows "interp_x f ! 5001 = Fin 5001 \<and> interp_x f ! 5002 = Fin 5002 \<and>
         interp_y f ! 5001 = Fin (9999 / 10000) \<and> interp_y f ! 5002 = Fin (9999 / 10000)"
proof -
  have e: "0 < epsilon default_scaler" "epsilon default_scaler < 1"
    by (simp_all add: default_scaler_def GuassRankScaler_init_def)
  have c: "2 \<le> card (set wide_column)" by (simp add: wide_column_props)
  have m1: "(5003 :: nat) - 1 = 5002" by simp
  note p = private_fit_Fin [OF c e, unfolded wide_column_props(4) wide_column_control m1]
  from assms p have f: "f = \<lparr>interp_x = map Fin wide_column,
      interp_y = map Fin (map (\<lambda>k. min (max (real k / fit_factor default_scaler 5002
                                      - fit_bound default_scaler)
                               (- fit_bound default_scaler)) (fit_bound default_scaler))
                    [0..<5003])\<rparr>"
    by simp
  have x: "map Fin wide_column ! 5001 = Fin 5001" "map Fin wide_column ! 5002 = Fin 5002"
    using wide_column_nth [of 5001] wide_column_nth [of 5002]
    by (simp_all add: wide_column_props(3))
  have y: "map Fin (map (\<lambda>k. min (max (real k / fit_factor default_scaler 5002
                                      - fit_bound default_scaler)
                               (- fit_bound default_scaler)) (fit_bound default_scaler))
                    [0..<5003]) ! 5001 = Fin (9999 / 10000)"
     "map Fin (map (\<lambda>k. min (max (real k / fit_factor default_scaler 5002
                                      - fit_bound default_scaler)
                               (- fit_bound default_scaler)) (fit_bound default_scaler))
                    [0..<5003]) ! 5002 = Fin (9999 / 10000)"
    using wide_quantiles(1,3) by (simp_all del: upt_rec_numeral)
  show ?thesis unfolding f interp1d_obj.simps using x y by simp
qed
section \<open>Input validation\<close>

lemma those_as_finite_None:
  "\<not> list_all np_isfinite row \<Longrightarrow> those (map as_finite row) = None"
proof (induction row)
  case Nil
  then show ?case by simp
next
  case (Cons v row)
  then show ?case by (cases v) (auto split: option.splits)
qed

lemma those_rows_None:
  "\<not> list_all (list_all np_isfinite) X \<Longrightarrow>
   those (map (\<lambda>row. those (map as_finite row)) X) = None"
proof (induction X)
  case Nil
  then show ?case by simp
next
  case (Cons row X)
  then show ?case by (auto simp: those_as_finite_None split: option.splits)
qed

lemma check_array_nonfinite:
  "\<not> list_all (list_all np_isfinite) X \<Longrightarrow> check_array X = Inl ValueError"
  by (simp add: check_array_def those_rows_None)

text \<open>
  C8, as the code has it. A call of \<open>fit\<close> whose input holds a NaN or an infinite
  value raises the validation error (ValueError) and leaves the object as it was;
  so do \<open>transform\<close> and \<open>inverse_transform\<close> on a fitted object. On an object
  that was never fitted the two raise NotFittedError instead, whatever the input:
  \<open>check_is_fitted\<close> runs before \<open>check_array\<close>.
\<close>

theorem C8_nonfinite_input_rejected:
  "(\<not> list_all (list_all np_isfinite) X \<longrightarrow> fit s X = (s, Inl ValueError)) \<and>
   (\<not> list_all (list_all np_isfinite) X \<and> interp_func s \<noteq> None \<longrightarrow>
      transform erfinv s X = (s, Inl ValueError) \<and>
      inverse_transform erf s X = (s, Inl ValueError)) \<and>
   (interp_func s = None \<longrightarrow>
      transform erfinv s X = (s, Inl NotFittedError) \<and>
      inverse_transform erf s X = (s, Inl NotFittedError))"
  by (auto simp: fit_def transform_def inverse_transform_def check_is_fitted_def
      check_array_nonfinite)

theorem C8_nonfinite_input_rejected_witness:
  "fit default_scaler [[Fin 1, NaN]] = (default_scaler, Inl ValueError) \<and>
   (\<forall>erfinv. transform erfinv
      (default_scaler\<lparr>interp_func := Some [\<lparr>interp_x = [Fin 1, Fin 2], interp_y = [Fin 0, Fin 1]\<rparr>]\<rparr>)
      [[PInf]]
    = (default_scaler\<lparr>interp_func := Some [\<lparr>interp_x = [Fin 1, Fin 2], interp_y = [Fin 0, Fin 1]\<rparr>]\<rparr>,
       Inl ValueError)) \<and>
   (\<forall>erf. inverse_transform erf default_scaler [[Fin 1]] = (default_scaler, Inl NotFittedError))"
  using C8_nonfinite_input_rejected [of "[[Fin 1, NaN]]" default_scaler]
    C8_nonfinite_input_rejected [of "[[PInf]]"
      "default_scaler\<lparr>interp_func := Some [\<lparr>interp_x = [Fin 1, Fin 2], interp_y = [Fin 0, Fin 1]\<rparr>]\<rparr>"]
    C8_nonfinite_input_rejected [of _ default_scaler]
  by (simp add: default_scaler_def GuassRankScaler_init_def)

text \<open>
  The claim C8 as it is written fails on an object that was never fitted: there
  \<open>transform\<close> of an input holding a NaN raises NotFittedError, not the validation
  error.
\<close>

theorem C8_unfitted_counterexample:
  "\<forall>erfinv. snd (transform erfinv default_scaler [[NaN]]) = Inl NotFittedError \<and>
     snd (transform erfinv default_scaler [[NaN]]) \<noteq> Inl ValueError"
  by (simp add: transform_def check_is_fitted_def default_scaler_def GuassRankScaler_init_def)

section \<open>The fitted state\<close>

text \<open>
  C10. A call of \<open>transform\<close> or \<open>inverse_transform\<close>, successful or not, returns
  the object it was called on: the stored interpolators \<open>interp_func\<close>, their
  control points included, are those \<open>fit\<close> produced. \<open>inverse_transform\<close> builds
  its inverse interpolator as a value of its own and stores nothing.
\<close>

theorem C10_transform_keeps_state:
  "fst (transform erfinv s X) = s \<and> fst (inverse_transform erf s X) = s"
  by (simp add: transform_def inverse_transform_def split: sum.splits)
section \<open>Parallel dispatch and column counts\<close>

lemma fit_fitted_two:
  "fit default_scaler [[Fin 1, Fin 2], [Fin 2, Fin 5]] = (fitted_two, Inr ())"
  by (simp add: fit_two_columns fitted_two_def)

lemma transform_fitted_two:
  "snd (transform erfinv fitted_two [[Fin 1, Fin 5]])
     = Inr [[erfinv (Fin (- (9999 / 10000))), erfinv (Fin (9999 / 10000))]]"
  by (simp add: fitted_two_def eval_defs)

text \<open>
  C9. The worker count \<open>n_jobs\<close> reaches the task runner only, so \<open>fit\<close>,
  \<open>transform\<close> and \<open>inverse_transform\<close> with one worker give the interpolators,
  the results and the exceptions they give with any other worker count \<open>N\<close>.
  Outputs are reassembled by column index: after a successful call, column \<open>j\<close>
  of the result is what the per-feature function returns for index \<open>j\<close> and
  column \<open>j\<close> of the validated input.
\<close>

theorem C9_parallelism_degree:
  "interp_func (fst (fit (s\<lparr>n_jobs := Some 1\<rparr>) X)) = interp_func (fst (fit (s\<lparr>n_jobs := N\<rparr>) X)) \<and>
   snd (fit (s\<lparr>n_jobs := Some 1\<rparr>) X) = snd (fit (s\<lparr>n_jobs := N\<rparr>) X) \<and>
   snd (transform erfinv (s\<lparr>n_jobs := Some 1\<rparr>) X) = snd (transform erfinv (s\<lparr>n_jobs := N\<rparr>) X) \<and>
   snd (inverse_transform erf (s\<lparr>n_jobs := Some 1\<rparr>) X)
     = snd (inverse_transform erf (s\<lparr>n_jobs := N\<rparr>) X) \<and>
   (\<forall>X' fs j. check_array X = Inr X' \<and> fit s X = (s\<lparr>interp_func := Some fs\<rparr>, Inr ()) \<and>
        j < length (hd X) \<longrightarrow>
      private_fit s (map (\<lambda>row. row ! j) X') = Inr (fs ! j)) \<and>
   (\<forall>X' Y j. check_array X = Inr X' \<and> snd (transform erfinv s X) = Inr Y \<and> j < length (hd X) \<longrightarrow>
      private_transform erfinv s j (map (\<lambda>row. row ! j) X') = Inr (map (\<lambda>row. row ! j) Y)) \<and>
   (\<forall>X' Y j. check_array X = Inr X' \<and> snd (inverse_transform erf s X) = Inr Y \<and>
        j < length (hd X) \<longrightarrow>
      private_inverse_transform erf s j (map (\<lambda>row. row ! j) X') = Inr (map (\<lambda>row. row ! j) Y))"
proof (intro conjI allI impI)
  have p: "Parallel (Some 1) ts = Parallel N ts" for ts :: "(unit \<Rightarrow> error + 'b) list"
    by (rule Parallel_n_jobs)
  show "interp_func (fst (fit (s\<lparr>n_jobs := Some 1\<rparr>) X)) = interp_func (fst (fit (s\<lparr>n_jobs := N\<rparr>) X))"
    by (simp add: fit_def p split: sum.splits)
  show "snd (fit (s\<lparr>n_jobs := Some 1\<rparr>) X) = snd (fit (s\<lparr>n_jobs := N\<rparr>) X)"
    by (simp add: fit_def p split: sum.splits)
  show "snd (transform erfinv (s\<lparr>n_jobs := Some 1\<rparr>) X) = snd (transform erfinv (s\<lparr>n_jobs := N\<rparr>) X)"
    by (simp add: transform_def check_is_fitted_def p split: sum.splits option.splits)
  show "snd (inverse_transform erf (s\<lparr>n_jobs := Some 1\<rparr>) X)
     = snd (inverse_transform erf (s\<lparr>n_jobs := N\<rparr>) X)"
    by (simp add: inverse_transform_def check_is_fitted_def p split: sum.splits option.splits)
next
  fix X' fs j
  assume a: "check_array X = Inr X' \<and> fit s X = (s\<lparr>interp_func := Some fs\<rparr>, Inr ()) \<and>
        j < length (hd X)"
  then have f: "fit s X = (s\<lparr>interp_func := Some fs\<rparr>, Inr ())" by simp
  from fit_success [OF f] obtain X'' fs' where x: "check_array X = Inr X''"
    and s: "s\<lparr>interp_func := Some fs\<rparr> = s\<lparr>interp_func := Some fs'\<rparr>"
    and l: "length fs' = length (hd X)"
    and n: "\<And>j. j < length fs' \<Longrightarrow> private_fit s (map (\<lambda>row. row ! j) X'') = Inr (fs' ! j)"
    by blast
  from s have "interp_func (s\<lparr>interp_func := Some fs\<rparr>) = interp_func (s\<lparr>interp_func := Some fs'\<rparr>)"
    by simp
  then have "fs = fs'" by simp
  with a x l n show "private_fit s (map (\<lambda>row. row ! j) X') = Inr (fs ! j)" by simp
next
  fix X' Y j
  assume a: "check_array X = Inr X' \<and> snd (transform erfinv s X) = Inr Y \<and> j < length (hd X)"
  then obtain cols where
    p: "Parallel (n_jobs s) (map (\<lambda>(i, a) u. private_transform erfinv s i a) (enumerate 0 (np_T X')))
          = Inr cols" and Y: "Y = np_T cols"
    by (auto simp: transform_def split: sum.splits)
  show "private_transform erfinv s j (map (\<lambda>row. row ! j) X') = Inr (map (\<lambda>row. row ! j) Y)"
    unfolding Y using a
    by (intro Parallel_columns [OF p, of X]) (simp_all add: private_transform_length)
next
  fix X' Y j
  assume a: "check_array X = Inr X' \<and> snd (inverse_transform erf s X) = Inr Y \<and>
        j < length (hd X)"
  then obtain cols where
    p: "Parallel (n_jobs s)
          (map (\<lambda>(i, a) u. private_inverse_transform erf s i a) (enumerate 0 (np_T X')))
          = Inr cols" and Y: "Y = np_T cols"
    by (auto simp: inverse_transform_def split: sum.splits)
  show "private_inverse_transform erf s j (map (\<lambda>row. row ! j) X') = Inr (map (\<lambda>row. row ! j) Y)"
    unfolding Y using a
    by (intro Parallel_columns [OF p, of X]) (simp_all add: private_inverse_transform_length)
qed

theorem C9_parallelism_degree_witness:
  "\<forall>erfinv.
     snd (transform erfinv (fitted_two\<lparr>n_jobs := Some 1\<rparr>) [[Fin 1, Fin 5]])
       = snd (transform erfinv (fitted_two\<lparr>n_jobs := Some 4\<rparr>) [[Fin 1, Fin 5]]) \<and>
     private_transform erfinv fitted_two 1 [5] = Inr [erfinv (Fin (9999 / 10000))]"
proof (intro allI conjI)
  fix erfinv :: "npfloat \<Rightarrow> npfloat"
  note t = C9_parallelism_degree [of fitted_two "[[Fin 1, Fin 5]]" "Some 4" erfinv id]
  from t show "snd (transform erfinv (fitted_two\<lparr>n_jobs := Some 1\<rparr>) [[Fin 1, Fin 5]])
       = snd (transform erfinv (fitted_two\<lparr>n_jobs := Some 4\<rparr>) [[Fin 1, Fin 5]])"
    by blast
  have c: "check_array [[Fin 1, Fin 5]] = Inr [[1, 5]]"
    by (simp add: check_array_def)
  from t have "check_array [[Fin 1, Fin 5]] = Inr [[1, 5]] \<and>
      snd (transform erfinv fitted_two [[Fin 1, Fin 5]])
        = Inr [[erfinv (Fin (- (9999 / 10000))), erfinv (Fin (9999 / 10000))]] \<and>
      1 < length (hd [[Fin 1, Fin 5 :: npfloat]]) \<longrightarrow>
    private_transform erfinv fitted_two 1 (map (\<lambda>row. row ! 1) [[1, 5]])
      = Inr (map (\<lambda>row. row ! 1) [[erfinv (Fin (- (9999 / 10000))), erfinv (Fin (9999 / 10000))]])"
    by blast
  with c transform_fitted_two [of erfinv]
  show "private_transform erfinv fitted_two 1 [5] = Inr [erfinv (Fin (9999 / 10000))]"
    by simp
qed

text \<open>
  C4, as the code has it. No method compares the column count of its input with
  the number of stored interpolators. An instance fitted by \<open>fit\<close> holds one
  interpolator per fit-time column, each the \<open>_fit\<close> of its column. On such an
  instance and a valid input, more columns than at fit time make \<open>transform\<close>
  and \<open>inverse_transform\<close> raise IndexError, when the per-feature function reads
  past the end of \<open>interp_func\<close>; with as many columns or fewer both succeed,
  the output has the rows and columns of the input, and its column \<open>j\<close> is what
  the per-feature function of index \<open>j\<close> returns for column \<open>j\<close> of the input:
  the interpolators of the first columns are applied.
\<close>

theorem C4_column_count:
  assumes "fit s0 X0 = (s, Inr ())" and "check_array X = Inr X'"
  shows "(\<exists>X0' fs. check_array X0 = Inr X0' \<and> interp_func s = Some fs \<and>
            length fs = length (hd X0) \<and>
            (\<forall>j<length fs. private_fit s0 (map (\<lambda>row. row ! j) X0') = Inr (fs ! j))) \<and>
         (length (hd X0) < length (hd X) \<longrightarrow>
            snd (transform erfinv s X) = Inl IndexError \<and>
            snd (inverse_transform erf s X) = Inl IndexError) \<and>
         (length (hd X) \<le> length (hd X0) \<longrightarrow>
            (\<exists>Y. snd (transform erfinv s X) = Inr Y \<and> length Y = length X \<and>
                 list_all (\<lambda>row. length row = length (hd X)) Y \<and>
                 (\<forall>j<length (hd X).
                    private_transform erfinv s j (map (\<lambda>row. row ! j) X')
                      = Inr (map (\<lambda>row. row ! j) Y))) \<and>
            (\<exists>Y. snd (inverse_transform erf s X) = Inr Y \<and> length Y = length X \<and>
                 list_all (\<lambda>row. length row = length (hd X)) Y \<and>
                 (\<forall>j<length (hd X).
                    private_inverse_transform erf s j (map (\<lambda>row. row ! j) X')
                      = Inr (map (\<lambda>row. row ! j) Y))))"
proof -
  from fit_success [OF assms(1)] obtain X0' fs where c0: "check_array X0 = Inr X0'"
    and s: "s = s0\<lparr>interp_func := Some fs\<rparr>"
    and l: "length fs = length (hd X0)"
    and n: "\<And>j. j < length fs \<Longrightarrow> private_fit s0 (map (\<lambda>row. row ! j) X0') = Inr (fs ! j)"
    by blast
  have fs: "interp_func s = Some fs" using s by simp
  have sw: "\<forall>j<length fs. \<exists>g. interp1d (interp_y (fs ! j)) (interp_x (fs ! j)) = Inr g"
    using n private_fit_swap_ok by blast
  note v = validated_shape [OF assms(2)]
  show ?thesis
  proof (intro conjI impI)
    show "\<exists>X0' fs. check_array X0 = Inr X0' \<and> interp_func s = Some fs \<and>
            length fs = length (hd X0) \<and>
            (\<forall>j<length fs. private_fit s0 (map (\<lambda>row. row ! j) X0') = Inr (fs ! j))"
      using c0 fs l n by blast
  next
    assume "length (hd X0) < length (hd X)"
    then have m: "length fs < length (hd X')" using l v(2) by simp
    show "snd (transform erfinv s X) = Inl IndexError"
      using transform_fitted_too_many [OF fs assms(2) m] by simp
    show "snd (inverse_transform erf s X) = Inl IndexError"
      using inverse_transform_fitted_too_many [OF fs assms(2) m sw] by simp
  next
    assume "length (hd X) \<le> length (hd X0)"
    then have m: "length (hd X') \<le> length fs" using l v(2) by simp
    let ?cols = "map (\<lambda>(i, a). map erfinv (interp1d_call (fs ! i) (map Fin a)))
                   (enumerate 0 (np_T X'))"
    have ne: "?cols \<noteq> []" using v(3) by (cases "np_T X'") simp_all
    have all: "\<forall>c\<in>set ?cols. length c = length X"
      using v(4) by (auto simp: interp1d_call_def in_set_enumerate_eq)
    have lc: "length ?cols = length (hd X)" by (simp add: np_T_length v(2))
    have t: "snd (transform erfinv s X) = Inr (np_T ?cols)"
      using transform_fitted_ok [OF fs assms(2) m] by simp
    moreover have "length (np_T ?cols) = length X" by (rule np_T_shape(1) [OF ne all])
    moreover have "list_all (\<lambda>row. length row = length (hd X)) (np_T ?cols)"
      using np_T_shape(2) [OF ne all] unfolding lc .
    moreover have "\<forall>j<length (hd X).
        private_transform erfinv s j (map (\<lambda>row. row ! j) X')
          = Inr (map (\<lambda>row. row ! j) (np_T ?cols))"
      using transform_columns [OF assms(2) t] by blast
    ultimately show "\<exists>Y. snd (transform erfinv s X) = Inr Y \<and> length Y = length X \<and>
                 list_all (\<lambda>row. length row = length (hd X)) Y \<and>
                 (\<forall>j<length (hd X).
                    private_transform erfinv s j (map (\<lambda>row. row ! j) X')
                      = Inr (map (\<lambda>row. row ! j) Y))"
      by blast
  next
    assume "length (hd X) \<le> length (hd X0)"
    then have m: "length (hd X') \<le> length fs" using l v(2) by simp
    from sw m have "\<forall>j<length (hd X'). \<exists>g. interp1d (interp_y (fs ! j)) (interp_x (fs ! j)) = Inr g"
      by auto
    then obtain g where g: "\<forall>j<length (hd X'). interp1d (interp_y (fs ! j)) (interp_x (fs ! j)) = Inr (g j)"
      by metis
    let ?cols = "map (\<lambda>(i, a). interp1d_call (g i) (map (\<lambda>v. erf (Fin v)) a))
                   (enumerate 0 (np_T X'))"
    have ne: "?cols \<noteq> []" using v(3) by (cases "np_T X'") simp_all
    have all: "\<forall>c\<in>set ?cols. length c = length X"
      using v(4) by (auto simp: interp1d_call_def in_set_enumerate_eq)
    have lc: "length ?cols = length (hd X)" by (simp add: np_T_length v(2))
    have t: "snd (inverse_transform erf s X) = Inr (np_T ?cols)"
      using inverse_transform_fitted_ok [OF fs assms(2) m g] by simp
    moreover have "length (np_T ?cols) = length X" by (rule np_T_shape(1) [OF ne all])
    moreover have "list_all (\<lambda>row. length row = length (hd X)) (np_T ?cols)"
      using np_T_shape(2) [OF ne all] unfolding lc .
    moreover have "\<forall>j<length (hd X).
        private_inverse_transform erf s j (map (\<lambda>row. row ! j) X')
          = Inr (map (\<lambda>row. row ! j) (np_T ?cols))"
      using inverse_transform_columns [OF assms(2) t] by blast
    ultimately show "\<exists>Y. snd (inverse_transform erf s X) = Inr Y \<and> length Y = length X \<and>
                 list_all (\<lambda>row. length row = length (hd X)) Y \<and>
                 (\<forall>j<length (hd X).
                    private_inverse_transform erf s j (map (\<lambda>row. row ! j) X')
                      = Inr (map (\<lambda>row. row ! j) Y))"
      by blast
  qed
qed

theorem C4_column_count_witness:
  "\<forall>erfinv erf.
     snd (transform erfinv fitted_two [[Fin 3, Fin 3, Fin 3]]) = Inl IndexError \<and>
     snd (inverse_transform erf fitted_two [[Fin 3, Fin 3, Fin 3]]) = Inl IndexError \<and>
     (\<exists>Y. snd (transform erfinv fitted_two [[Fin 3]]) = Inr Y \<and> length Y = 1 \<and>
          list_all (\<lambda>row. length row = 1) Y \<and>
          private_transform erfinv fitted_two 0 [3] = Inr (map (\<lambda>row. row ! 0) Y)) \<and>
     (\<exists>Y. snd (inverse_transform erf fitted_two [[Fin 3]]) = Inr Y \<and> length Y = 1 \<and>
          list_all (\<lambda>row. length row = 1) Y \<and>
          private_inverse_transform erf fitted_two 0 [3] = Inr (map (\<lambda>row. row ! 0) Y))"
proof (intro allI)
  fix erfinv erf :: "npfloat \<Rightarrow> npfloat"
  have c3: "check_array [[Fin 3, Fin 3, Fin 3]] = Inr [[3, 3, 3]]"
    and c1: "check_array [[Fin 3]] = Inr [[3]]"
    by (simp_all add: check_array_def)
  from C4_column_count [OF fit_fitted_two c3, of erfinv erf]
    C4_column_count [OF fit_fitted_two c1, of erfinv erf]
  show "snd (transform erfinv fitted_two [[Fin 3, Fin 3, Fin 3]]) = Inl IndexError \<and>
     snd (inverse_transform erf fitted_two [[Fin 3, Fin 3, Fin 3]]) = Inl IndexError \<and>
     (\<exists>Y. snd (transform erfinv fitted_two [[Fin 3]]) = Inr Y \<and> length Y = 1 \<and>
          list_all (\<lambda>row. length row = 1) Y \<and>
          private_transform erfinv fitted_two 0 [3] = Inr (map (\<lambda>row. row ! 0) Y)) \<and>
     (\<exists>Y. snd (inverse_transform erf fitted_two [[Fin 3]]) = Inr Y \<and> length Y = 1 \<and>
          list_all (\<lambda>row. length row = 1) Y \<and>
          private_inverse_transform erf fitted_two 0 [3] = Inr (map (\<lambda>row. row ! 0) Y))"
    by simp
qed

text \<open>
  The claim C4 as it is written fails for fewer columns: fitted on two columns,
  \<open>transform\<close> of a one-column input returns a one-column result, computed with
  the interpolator of the first column.
\<close>

theorem C4_fewer_columns_counterexample:
  "\<forall>erfinv. snd (transform erfinv (fst (fit default_scaler [[Fin 1, Fin 2], [Fin 2, Fin 5]]))
                 [[Fin 1]])
     = Inr [[erfinv (Fin (- (9999 / 10000)))]]"
  by (simp add: fit_fitted_two) (simp add: fitted_two_def eval_defs)
section \<open>The scaling step\<close>

text \<open>
  C5. A column with exactly one distinct value is deduplicated to that value, its
  only rank is 0, so \<open>np.max(rank)\<close> is 0 and \<open>factor\<close> is 0. No branch guards
  the division \<open>rank / factor\<close>: it is \<open>0 / 0\<close>, NaN, and NaN it stays through
  the subtraction and the clip. The scaled quantile of the sole value is not
  finite.
\<close>

theorem C5_single_value:
  assumes "set a = {v}"
  shows "fit_rank a = [0] \<and> np_max (fit_rank a) = Inr 0 \<and> fit_factor s 0 = 0 \<and>
         unclipped_rank (fit_bound s) (fit_factor s 0) 0 = NaN \<and>
         fit_scaled_rank s a = Inr [NaN] \<and> \<not> np_isfinite NaN"
proof -
  have r: "fit_rank a = [0]"
    by (simp add: fit_rank_def drop_duplicates_single [OF assms] argsort_def)
  have f: "fit_factor s 0 = 0" by (simp add: fit_factor_def)
  have u: "unclipped_rank (fit_bound s) 0 0 = NaN"
    by (simp add: unclipped_rank_def np_sub_def)
  have c: "scale_rank (fit_bound s) 0 0 = NaN"
    by (simp add: scale_rank_def u np_clip_def np_maximum_def np_minimum_def)
  have m: "np_max (fit_rank a) = Inr 0" by (simp add: r)
  have sr: "fit_scaled_rank s a = Inr [NaN]"
    unfolding fit_scaled_rank_def Let_def m by (simp add: r f c)
  show ?thesis using r m f u sr by simp
qed

theorem C5_single_value_witness:
  "fit_rank [5, 5] = [0] \<and> fit_factor default_scaler 0 = 0 \<and>
   fit_scaled_rank default_scaler [5, 5] = Inr [NaN]"
  using C5_single_value [of "[5, 5]" 5 default_scaler] by simp

lemma fit_fitted_half:
  "fit half_scaler [[Fin 1], [Fin 2], [Fin 3]] = (fitted_half, Inr ())"
  by (simp add: fitted_half_def half_scaler_def eval_defs)

lemma transform_fitted_half:
  "snd (transform erfinv fitted_half [[Fin 3]]) = Inr [[erfinv (Fin (1 / 2))]]"
  by (simp add: fitted_half_def half_scaler_def eval_defs)

lemma inverse_fitted_half:
  "erf (Fin z) = Fin (1 / 2) \<Longrightarrow>
   snd (inverse_transform erf fitted_half [[Fin z]]) = Inr [[Fin 2]]"
  by (simp add: fitted_half_def half_scaler_def eval_defs)

text \<open>
  C2, where the code departs from it. With \<open>epsilon=0.5\<close> the three distinct
  values \<open>1, 2, 3\<close> get the quantiles \<open>-0.5, 0.5, 0.5\<close>: non-decreasing, but the
  two largest values share one quantile, so the control points are not strictly
  increasing and the mapping is not invertible. \<open>factor = max(rank) / 2 * bound\<close>
  sends rank \<open>r\<close> to \<open>2 r / (max(rank) * bound) - bound\<close>, above \<open>bound\<close> for
  every \<open>r > max(rank) * bound^2\<close>, and the clip brings all of these to
  \<open>bound\<close>. With the default \<open>epsilon=1e-4\<close> and the 5003 distinct values
  \<open>0, ..., 5002\<close> the ranks 5001 and 5002 both get \<open>0.9999\<close>: the fitted mapping
  holds the control points \<open>(5001, 0.9999)\<close> and \<open>(5002, 0.9999)\<close>.
\<close>

theorem C2_quantiles_not_strict:
  "fit_scaled_rank half_scaler [1, 2, 3] = Inr [Fin (- (1 / 2)), Fin (1 / 2), Fin (1 / 2)] \<and>
   scale_rank (fit_bound default_scaler) (fit_factor default_scaler 5002) 5001
     = Fin (9999 / 10000) \<and>
   scale_rank (fit_bound default_scaler) (fit_factor default_scaler 5002) 5002
     = Fin (9999 / 10000) \<and>
   (case private_fit default_scaler wide_column of
      Inl e \<Rightarrow> False
    | Inr f \<Rightarrow>
        interp_x f ! 5001 = Fin 5001 \<and> interp_x f ! 5002 = Fin 5002 \<and>
        interp_y f ! 5001 = Fin (9999 / 10000) \<and> interp_y f ! 5002 = Fin (9999 / 10000))"
proof -
  have e: "0 < epsilon default_scaler" "epsilon default_scaler < 1"
    by (simp_all add: default_scaler_def GuassRankScaler_init_def)
  have c: "2 \<le> card (set wide_column)" by (simp add: wide_column_props)
  from private_fit_Fin [OF c e] obtain f where f: "private_fit default_scaler wide_column = Inr f"
    by blast
  have "fit_scaled_rank half_scaler [1, 2, 3] = Inr [Fin (- (1 / 2)), Fin (1 / 2), Fin (1 / 2)]"
    by (simp add: half_scaler_def eval_defs)
  moreover have "scale_rank (fit_bound default_scaler) (fit_factor default_scaler 5002) 5001
     = Fin (9999 / 10000)"
    by (simp add: eval_defs)
  moreover have "scale_rank (fit_bound default_scaler) (fit_factor default_scaler 5002) 5002
     = Fin (9999 / 10000)"
    by (simp add: eval_defs)
  ultimately show ?thesis using wide_control_points [OF f] by (simp add: f)
qed

text \<open>
  C1, where the code departs from it. Fitted with \<open>epsilon=0.5\<close> on the column
  \<open>[1, 2, 3]\<close>, \<open>transform\<close> sends the fit-time value 3 to \<open>erfinv(0.5)\<close>, and
  \<open>inverse_transform\<close> sends that back to 2, not 3: the values 2 and 3 share the
  quantile 0.5 (see C2), and the inverse interpolator answers with the first of
  them. With the default \<open>epsilon=1e-4\<close>, fitted on the one-column input
  \<open>0, 1, ..., 5002\<close>, the fit-time value 5002 goes to \<open>erfinv(0.9999)\<close> and comes
  back as 5001. \<open>erfinv\<close> and \<open>erf\<close> are any two functions with \<open>erfinv\<close> finite
  and \<open>erf(erfinv(q)) = q\<close> at the two quantiles \<open>0.5\<close> and \<open>0.9999\<close>.
\<close>

theorem C1_round_trip_fails:
  assumes "erfinv (Fin (1 / 2)) = Fin z" and "erf (Fin z) = Fin (1 / 2)"
    and "erfinv (Fin (9999 / 10000)) = Fin w" and "erf (Fin w) = Fin (9999 / 10000)"
  shows "fit half_scaler [[Fin 1], [Fin 2], [Fin 3]] = (fitted_half, Inr ()) \<and>
         snd (transform erfinv fitted_half [[Fin 3]]) = Inr [[Fin z]] \<and>
         snd (inverse_transform erf fitted_half [[Fin z]]) = Inr [[Fin 2]] \<and>
         snd (fit default_scaler wide_input) = Inr () \<and>
         snd (transform erfinv (fst (fit default_scaler wide_input)) [[Fin 5002]])
           = Inr [[Fin w]] \<and>
         snd (inverse_transform erf (fst (fit default_scaler wide_input)) [[Fin w]])
           = Inr [[Fin 5001]]"
  using assms(1,2) wide_pipeline [of erfinv w erf, OF assms(3,4)]
  by (simp add: fit_fitted_half transform_fitted_half inverse_fitted_half)

theorem C1_round_trip_fails_witness:
  "fit half_scaler [[Fin 1], [Fin 2], [Fin 3]] = (fitted_half, Inr ()) \<and>
   snd (transform (\<lambda>q. q) fitted_half [[Fin 3]]) = Inr [[Fin (1 / 2)]] \<and>
   snd (inverse_transform (\<lambda>z. z) fitted_half [[Fin (1 / 2)]]) = Inr [[Fin 2]] \<and>
   snd (transform (\<lambda>q. q) (fst (fit default_scaler wide_input)) [[Fin 5002]])
     = Inr [[Fin (9999 / 10000)]] \<and>
   snd (inverse_transform (\<lambda>z. z) (fst (fit default_scaler wide_input)) [[Fin (9999 / 10000)]])
     = Inr [[Fin 5001]]"
  using C1_round_trip_fails [of "\<lambda>q. q" "1 / 2" "\<lambda>z. z" "9999 / 10000"] by simp
section \<open>Deduplication and ranking\<close>

text \<open>
  C6, as the code has it. \<open>drop_duplicates\<close> keeps the first occurrence of each
  distinct value and leaves the kept values in their original order: the result
  holds each distinct value of the column exactly once and is no longer than the
  column, but it is sorted only if the first occurrences already were. The
  ranking step gives each kept value the number of kept values strictly below
  it, its 0-based position in ascending order; no rank is averaged. The column
  \<open>[1, 1, 2, 3]\<close> gives the three values \<open>[1, 2, 3]\<close> with ranks \<open>[0, 1, 2]\<close>.
  The control points are put in ascending order later, by the interpolator's
  constructor.
\<close>

theorem C6_dedup_and_rank:
  "distinct (drop_duplicates a) \<and> set (drop_duplicates a) = set a \<and>
   length (drop_duplicates a) \<le> length a \<and>
   drop_duplicates a
     = map (\<lambda>i. a ! i) (filter (\<lambda>i. first_index a (a ! i) = i) [0..<length a]) \<and>
   length (fit_rank a) = length (drop_duplicates a) \<and>
   (\<forall>k<length (drop_duplicates a).
      fit_rank a ! k
        = length (filter (\<lambda>v. v < drop_duplicates a ! k) (drop_duplicates a))) \<and>
   drop_duplicates [1, 1, 2, 3] = [1, 2, 3] \<and> fit_rank [1, 1, 2, 3] = [0, 1, 2]"
proof (intro conjI allI impI)
  show "distinct (drop_duplicates a)" by (rule distinct_drop_duplicates)
  show "set (drop_duplicates a) = set a" by (rule set_drop_duplicates)
  show "length (drop_duplicates a) \<le> length a" by (rule length_drop_duplicates)
  show "drop_duplicates a
     = map (\<lambda>i. a ! i) (filter (\<lambda>i. first_index a (a ! i) = i) [0..<length a])"
    by (rule drop_duplicates_eq)
  show "length (fit_rank a) = length (drop_duplicates a)" by (simp add: fit_rank_def)
  show "drop_duplicates [1, 1, 2, 3] = [1, 2, 3]" by (simp add: eval_defs)
  show "fit_rank [1, 1, 2, 3] = [0, 1, 2]" by (simp add: eval_defs)
next
  fix k assume "k < length (drop_duplicates a)"
  then show "fit_rank a ! k
        = length (filter (\<lambda>v. v < drop_duplicates a ! k) (drop_duplicates a))"
    by (rule fit_rank_counts)
qed

theorem C6_dedup_and_rank_witness:
  "drop_duplicates [3, 1, 2, 1, 3] = [3, 1, 2] \<and> (0 :: nat) < length (drop_duplicates [3, 1, 2, 1, 3]) \<and>
   fit_rank [3, 1, 2, 1, 3] ! 0 = length (filter (\<lambda>v. v < 3) [3, 1, 2 :: real])"
proof -
  have d: "drop_duplicates [3, 1, 2, 1, 3] = [3, 1, 2]" by (simp add: eval_defs)
  have "\<forall>k<length (drop_duplicates [3, 1, 2, 1, 3]).
      fit_rank [3, 1, 2, 1, 3] ! k
        = length (filter (\<lambda>v. v < drop_duplicates [3, 1, 2, 1, 3] ! k)
                    (drop_duplicates [3, 1, 2, 1, 3]))"
    using C6_dedup_and_rank [of "[3, 1, 2, 1, 3]"] by blast
  then have "fit_rank [3, 1, 2, 1, 3] ! 0 = length (filter (\<lambda>v. v < 3) [3, 1, 2 :: real])"
    unfolding d by simp
  with d show ?thesis by simp
qed

text \<open>
  The claim C6 as it is written fails where it says the deduplication step
  produces a strictly increasing sequence: the column \<open>[3, 1, 2]\<close> is returned
  as it is.
\<close>

theorem C6_not_sorted_counterexample:
  "drop_duplicates [3, 1, 2] = [3, 1, 2] \<and> \<not> sorted_wrt (<) (drop_duplicates [3, 1, 2])"
  by (simp add: eval_defs)

section \<open>The endpoints of the scaling step\<close>

text \<open>
  C3, as the code has it. For a column with at least two distinct values and
  \<open>0 < epsilon < 1\<close>, \<open>np.max(rank)\<close> is the number of distinct values less one,
  rank 0 is scaled to \<open>-bound\<close> exactly, and there the clip changes nothing;
  rank \<open>max(rank)\<close> is scaled to \<open>+bound\<close> exactly. At rank \<open>max(rank)\<close> the
  value before the clip is \<open>2 / bound - bound\<close>, which is above \<open>bound\<close>.
\<close>

theorem C3_endpoints:
  assumes "2 \<le> card (set a)" and "0 < epsilon s" and "epsilon s < 1"
  shows "np_max (fit_rank a) = Inr (card (set a) - 1) \<and>
         fit_scaled_rank s a
           = Inr (map (scale_rank (fit_bound s) (fit_factor s (card (set a) - 1))) (fit_rank a)) \<and>
         unclipped_rank (fit_bound s) (fit_factor s (card (set a) - 1)) 0 = Fin (- fit_bound s) \<and>
         scale_rank (fit_bound s) (fit_factor s (card (set a) - 1)) 0 = Fin (- fit_bound s) \<and>
         unclipped_rank (fit_bound s) (fit_factor s (card (set a) - 1)) (card (set a) - 1)
           = Fin (2 / fit_bound s - fit_bound s) \<and>
         fit_bound s < 2 / fit_bound s - fit_bound s \<and>
         scale_rank (fit_bound s) (fit_factor s (card (set a) - 1)) (card (set a) - 1)
           = Fin (fit_bound s)"
proof -
  let ?m = "card (set a)"
  let ?b = "fit_bound s"
  let ?f = "fit_factor s (?m - 1)"
  have b: "0 < ?b" "?b < 1" using assms(2,3) by (simp_all add: fit_bound_def)
  have m: "0 < ?m - 1" using assms(1) by simp
  have f: "0 < ?f" by (rule fit_factor_pos [OF m assms(3)])
  have len: "length (drop_duplicates a) = ?m" by (rule length_drop_duplicates_card)
  have k: "0 < length (drop_duplicates a)" using len assms(1) by simp
  have set: "set (fit_rank a) = {..<?m}"
    using fit_rank_props(2) [OF refl k] len by simp
  have mx: "np_max (fit_rank a) = Inr (?m - 1)"
    by (rule np_max_perm [OF set]) (use assms(1) in simp)
  have sr: "fit_scaled_rank s a = Inr (map (scale_rank ?b ?f) (fit_rank a))"
    by (simp add: fit_scaled_rank_def Let_def mx)
  have top: "real (?m - 1) / ?f = 2 / ?b"
    using m b by (simp add: fit_factor_def field_simps)
  have "?b * ?b < 1 * 1" using b by (intro mult_strict_mono) simp_all
  then have over: "?b < 2 / ?b - ?b" using b by (simp add: field_simps)
  have u0: "unclipped_rank ?b ?f 0 = Fin (- ?b)" using f by (simp add: unclipped_rank_Fin)
  have s0: "scale_rank ?b ?f 0 = Fin (- ?b)" using f b by (simp add: scale_rank_Fin)
  have fne: "?f \<noteq> 0" using f by simp
  have ut: "unclipped_rank ?b ?f (?m - 1) = Fin (2 / ?b - ?b)"
    unfolding unclipped_rank_Fin [OF fne] top ..
  have cl: "min (max (2 / ?b - ?b) (- ?b)) ?b = ?b" using b over by linarith
  have st: "scale_rank ?b ?f (?m - 1) = Fin ?b"
    unfolding scale_rank_Fin [OF fne] top cl ..
  show ?thesis using mx sr u0 s0 ut over st by blast
qed

theorem C3_endpoints_witness:
  "(2 :: nat) \<le> card (set [1, 2 :: real]) \<and>
   scale_rank (fit_bound default_scaler) (fit_factor default_scaler 1) 0 = Fin (- (9999 / 10000)) \<and>
   scale_rank (fit_bound default_scaler) (fit_factor default_scaler 1) 1 = Fin (9999 / 10000)"
  using C3_endpoints [of "[1, 2]" default_scaler] by (simp add: eval_defs)

text \<open>
  The claim C3 as it is written fails where it says the clip is a no-op at the
  upper endpoint: for two distinct values and the default \<open>epsilon\<close> the value at
  rank \<open>max(rank) = 1\<close> before the clip is \<open>2 / 0.9999 - 0.9999\<close>, outside
  \<open>[-bound, bound]\<close>, and the clip changes it to \<open>0.9999\<close>.
\<close>

theorem C3_clip_counterexample:
  "np_max (fit_rank [1, 2]) = Inr 1 \<and>
   unclipped_rank (fit_bound default_scaler) (fit_factor default_scaler 1) 1
     = Fin (20000 / 9999 - 9999 / 10000) \<and>
   (9999 / 10000 :: real) < 20000 / 9999 - 9999 / 10000 \<and>
   scale_rank (fit_bound default_scaler) (fit_factor default_scaler 1) 1 = Fin (9999 / 10000)"
  by (simp add: eval_defs)

section \<open>Extrapolation\<close>

text \<open>
  C7, as the code has it. Take a feature fitted on a column with at least two
  distinct values, with \<open>0 < epsilon < 1\<close> and the linear interpolation rule;
  \<open>us\<close> are its control values in ascending order and \<open>qs\<close> their quantiles.
  For an input below the smallest fit-time value the interpolator returns the
  point on the line through the first two control points, and that quantile is
  below \<open>-bound\<close>; for an input above the largest fit-time value it returns the
  point on the line through the last two control points, a quantile of at least
  \<open>bound\<close>, and above \<open>bound\<close> when the quantile of the second largest value
  is below \<open>bound\<close>. Nothing is clamped and nothing is raised: \<open>_transform\<close>
  returns \<open>erfinv\<close> of that quantile, and for any input values \<open>erfinv\<close> of
  what the interpolator gives.
\<close>

theorem C7_extrapolation:
  fixes a :: "real list" and s :: GuassRankScaler
  defines "m \<equiv> card (set a)" and "b \<equiv> fit_bound s"
  defines "us \<equiv> sort (drop_duplicates a)"
  defines "qs \<equiv> map (\<lambda>k. min (max (real k / fit_factor s (m - 1) - b) (- b)) b) [0..<m]"
  assumes "2 \<le> card (set a)" and "0 < epsilon s" and "epsilon s < 1"
  shows "private_fit s a = Inr \<lparr>interp_x = map Fin us, interp_y = map Fin qs\<rparr> \<and>
    us ! 0 = Min (set a) \<and> us ! (m - 1) = Max (set a) \<and> qs ! 0 = - b \<and> qs ! (m - 1) = b \<and>
    (\<forall>x. x < Min (set a) \<longrightarrow>
       call_linear \<lparr>interp_x = map Fin us, interp_y = map Fin qs\<rparr> (Fin x)
         = Fin ((qs ! 1 - qs ! 0) / (us ! 1 - us ! 0) * (x - us ! 0) + qs ! 0) \<and>
       (qs ! 1 - qs ! 0) / (us ! 1 - us ! 0) * (x - us ! 0) + qs ! 0 < - b) \<and>
    (\<forall>x. Max (set a) < x \<longrightarrow>
       call_linear \<lparr>interp_x = map Fin us, interp_y = map Fin qs\<rparr> (Fin x)
         = Fin ((qs ! (m - 1) - qs ! (m - 2)) / (us ! (m - 1) - us ! (m - 2)) * (x - us ! (m - 2))
                + qs ! (m - 2)) \<and>
       b \<le> (qs ! (m - 1) - qs ! (m - 2)) / (us ! (m - 1) - us ! (m - 2)) * (x - us ! (m - 2))
             + qs ! (m - 2) \<and>
       (qs ! (m - 2) < b \<longrightarrow>
          b < (qs ! (m - 1) - qs ! (m - 2)) / (us ! (m - 1) - us ! (m - 2)) * (x - us ! (m - 2))
              + qs ! (m - 2))) \<and>
    (\<forall>erfinv s' fs i x. interp_func s' = Some fs \<and> i < length fs \<and>
         fs ! i = \<lparr>interp_x = map Fin us, interp_y = map Fin qs\<rparr> \<and> x < Min (set a) \<longrightarrow>
       private_transform erfinv s' i [x]
         = Inr [erfinv (Fin ((qs ! 1 - qs ! 0) / (us ! 1 - us ! 0) * (x - us ! 0) + qs ! 0))]) \<and>
    (\<forall>erfinv s' fs i x. interp_func s' = Some fs \<and> i < length fs \<and>
         fs ! i = \<lparr>interp_x = map Fin us, interp_y = map Fin qs\<rparr> \<and> Max (set a) < x \<longrightarrow>
       private_transform erfinv s' i [x]
         = Inr [erfinv (Fin ((qs ! (m - 1) - qs ! (m - 2)) / (us ! (m - 1) - us ! (m - 2))
                               * (x - us ! (m - 2)) + qs ! (m - 2)))]) \<and>
    (\<forall>erfinv s' fs i xs. interp_func s' = Some fs \<and> i < length fs \<longrightarrow>
       private_transform erfinv s' i xs
         = Inr (map (\<lambda>x. erfinv (call_linear (fs ! i) (Fin x))) xs))"
proof -
  let ?f = "fit_factor s (m - 1)"
  have m2: "2 \<le> m" using assms(5) by (simp add: m_def)
  have b: "0 < b" "b < 1" using assms(6,7) by (simp_all add: b_def fit_bound_def)
  have f: "0 < ?f" by (rule fit_factor_pos [OF _ assms(7)]) (use m2 in simp)
  then have fne: "?f \<noteq> 0" by simp
  have ne: "a \<noteq> []" using assms(5) by auto
  have len: "length (drop_duplicates a) = m" unfolding m_def by (rule length_drop_duplicates_card)
  have lus: "length us = m" by (simp add: us_def len)
  have lqs: "length qs = length us" by (simp add: qs_def lus)
  have so: "sorted us" and di: "distinct us" and se: "set us = set a"
    by (simp_all add: us_def)
  then have st: "sorted_wrt (<) us" by (simp add: strict_sorted_iff)
  have usne: "us \<noteq> []" using lus m2 by auto
  have l2: "2 \<le> length us" using lus m2 by simp
  have "map (scale_rank b ?f) [0..<m]
        = map (\<lambda>k. Fin (min (max (real k / ?f - b) (- b)) b)) [0..<m]"
    by (rule map_cong [OF refl]) (rule scale_rank_Fin [OF fne])
  also have "\<dots> = map Fin qs" unfolding qs_def map_map comp_def ..
  finally have y: "map (scale_rank b ?f) [0..<m] = map Fin qs" .
  have fit: "private_fit s a = Inr \<lparr>interp_x = map Fin us, interp_y = map Fin qs\<rparr>"
    unfolding private_fit_eq [OF ne] len us_def [symmetric] b_def [symmetric] y ..
  have u0: "us ! 0 = Min (set a)" using sorted_nth0_Min [OF so usne] se by simp
  have ul: "us ! (m - 1) = Max (set a)" using sorted_last_Max [OF so usne] se lus by simp
  have qk: "qs ! k = min (max (real k / ?f - b) (- b)) b" if "k < m" for k
    using that by (simp add: qs_def)
  have q0: "qs ! 0 = - b" using qk [of 0] m2 b by simp
  have top: "real (m - 1) / ?f = 2 / b"
    using m2 b by (simp add: fit_factor_def b_def [symmetric] field_simps)
  have "b * b < 1 * 1" using b by (intro mult_strict_mono) simp_all
  then have over: "b < 2 / b - b" using b by (simp add: field_simps)
  have cl: "min (max (2 / b - b) (- b)) b = b" using b over by linarith
  have "qs ! (m - 1) = min (max (real (m - 1) / ?f - b) (- b)) b"
    by (rule qk) (use m2 in simp)
  then have ql: "qs ! (m - 1) = b" unfolding top cl .
  have "0 < 1 / ?f" using f by simp
  then have "- b < min (max (1 / ?f - b) (- b)) b" using b by linarith
  moreover have "qs ! 1 = min (max (real 1 / ?f - b) (- b)) b"
    by (rule qk) (use m2 in simp)
  ultimately have q1: "qs ! 0 < qs ! 1" using q0 by simp
  have "qs ! (m - 2) = min (max (real (m - 2) / ?f - b) (- b)) b"
    by (rule qk) (use m2 in simp)
  then have qp: "qs ! (m - 2) \<le> b" by simp
  have u01: "us ! 0 < us ! 1" using sorted_wrt_nth_less [OF st, of 0 1] l2 by simp
  have upl: "us ! (m - 2) < us ! (m - 1)"
    using sorted_wrt_nth_less [OF st, of "m - 2" "m - 1"] lus m2 by simp
  have below: "call_linear \<lparr>interp_x = map Fin us, interp_y = map Fin qs\<rparr> (Fin x)
         = Fin ((qs ! 1 - qs ! 0) / (us ! 1 - us ! 0) * (x - us ! 0) + qs ! 0) \<and>
       (qs ! 1 - qs ! 0) / (us ! 1 - us ! 0) * (x - us ! 0) + qs ! 0 < - b"
    if "x < Min (set a)" for x
  proof
    have x: "x < us ! 0" using that u0 by simp
    show "call_linear \<lparr>interp_x = map Fin us, interp_y = map Fin qs\<rparr> (Fin x)
         = Fin ((qs ! 1 - qs ! 0) / (us ! 1 - us ! 0) * (x - us ! 0) + qs ! 0)"
      by (rule call_linear_below [OF lqs l2 st x])
    have "0 < (qs ! 1 - qs ! 0) / (us ! 1 - us ! 0)" using q1 u01 by simp
    moreover have "x - us ! 0 < 0" using x by simp
    ultimately have "(qs ! 1 - qs ! 0) / (us ! 1 - us ! 0) * (x - us ! 0) < 0"
      by (rule mult_pos_neg)
    then show "(qs ! 1 - qs ! 0) / (us ! 1 - us ! 0) * (x - us ! 0) + qs ! 0 < - b"
      using q0 by simp
  qed
  have above: "call_linear \<lparr>interp_x = map Fin us, interp_y = map Fin qs\<rparr> (Fin x)
         = Fin ((qs ! (m - 1) - qs ! (m - 2)) / (us ! (m - 1) - us ! (m - 2)) * (x - us ! (m - 2))
                + qs ! (m - 2)) \<and>
       b \<le> (qs ! (m - 1) - qs ! (m - 2)) / (us ! (m - 1) - us ! (m - 2)) * (x - us ! (m - 2))
             + qs ! (m - 2) \<and>
       (qs ! (m - 2) < b \<longrightarrow>
          b < (qs ! (m - 1) - qs ! (m - 2)) / (us ! (m - 1) - us ! (m - 2)) * (x - us ! (m - 2))
              + qs ! (m - 2))"
    if "Max (set a) < x" for x
  proof (intro conjI impI)
    have x: "us ! (length us - 1) < x" using that ul lus by simp
    show "call_linear \<lparr>interp_x = map Fin us, interp_y = map Fin qs\<rparr> (Fin x)
         = Fin ((qs ! (m - 1) - qs ! (m - 2)) / (us ! (m - 1) - us ! (m - 2)) * (x - us ! (m - 2))
                + qs ! (m - 2))"
      using call_linear_above [OF lqs l2 st x] unfolding lus .
    let ?d = "us ! (m - 1) - us ! (m - 2)"
    let ?sl = "(qs ! (m - 1) - qs ! (m - 2)) / ?d"
    have d: "0 < ?d" using upl by simp
    have sl: "0 \<le> ?sl" using qp ql d by simp
    have "?d \<le> x - us ! (m - 2)" using x lus by simp
    then have "?sl * ?d \<le> ?sl * (x - us ! (m - 2))" using sl by (rule mult_left_mono)
    moreover have "?sl * ?d = b - qs ! (m - 2)" using d ql by simp
    ultimately show "b \<le> ?sl * (x - us ! (m - 2)) + qs ! (m - 2)" by simp
    assume "qs ! (m - 2) < b"
    then have sp: "0 < ?sl" using ql d by simp
    have "?d < x - us ! (m - 2)" using x lus by simp
    then have "?sl * ?d < ?sl * (x - us ! (m - 2))" using sp by (rule mult_strict_left_mono)
    moreover have "?sl * ?d = b - qs ! (m - 2)" using d ql by simp
    ultimately show "b < ?sl * (x - us ! (m - 2)) + qs ! (m - 2)" by simp
  qed
  have tb: "private_transform erfinv s' i [x]
         = Inr [erfinv (Fin ((qs ! 1 - qs ! 0) / (us ! 1 - us ! 0) * (x - us ! 0) + qs ! 0))]"
    if "interp_func s' = Some fs \<and> i < length fs \<and>
         fs ! i = \<lparr>interp_x = map Fin us, interp_y = map Fin qs\<rparr> \<and> x < Min (set a)"
    for erfinv s' fs i x
    using that below [of x] private_transform_eq [of s' fs i erfinv "[x]"] by simp
  have ta: "private_transform erfinv s' i [x]
         = Inr [erfinv (Fin ((qs ! (m - 1) - qs ! (m - 2)) / (us ! (m - 1) - us ! (m - 2))
                               * (x - us ! (m - 2)) + qs ! (m - 2)))]"
    if "interp_func s' = Some fs \<and> i < length fs \<and>
         fs ! i = \<lparr>interp_x = map Fin us, interp_y = map Fin qs\<rparr> \<and> Max (set a) < x"
    for erfinv s' fs i x
    using that above [of x] private_transform_eq [of s' fs i erfinv "[x]"] by simp
  show ?thesis
    using fit u0 ul q0 ql below above private_transform_eq
    by (intro conjI allI impI tb ta) blast+
qed

theorem C7_extrapolation_witness:
  "(2 :: nat) \<le> card (set [1, 2 :: real]) \<and>
   private_fit default_scaler [1, 2]
     = Inr \<lparr>interp_x = [Fin 1, Fin 2],
            interp_y = [Fin (- (9999 / 10000)), Fin (9999 / 10000)]\<rparr> \<and>
   call_linear \<lparr>interp_x = [Fin 1, Fin 2],
                interp_y = [Fin (- (9999 / 10000)), Fin (9999 / 10000)]\<rparr> (Fin 0)
     = Fin (- (29997 / 10000)) \<and>
   call_linear \<lparr>interp_x = [Fin 1, Fin 2],
                interp_y = [Fin (- (9999 / 10000)), Fin (9999 / 10000)]\<rparr> (Fin 3)
     = Fin (29997 / 10000) \<and>
   (\<forall>erfinv. private_transform erfinv fitted_two 0 [0] = Inr [erfinv (Fin (- (29997 / 10000)))])"
  using C7_extrapolation [of "[1, 2]" default_scaler]
  by (simp add: fitted_two_def eval_defs)

text \<open>
  The claim C7 as it is written fails for a feature with a single distinct
  value: \<open>fit\<close> succeeds on the column \<open>[5, 5]\<close> and stores the one control
  point \<open>(5, NaN)\<close> (see C5), and the out-of-range input 7 gets the quantile
  NaN, not a number; \<open>transform\<close> returns \<open>erfinv\<close> of NaN.
\<close>

theorem C7_single_value_counterexample:
  "\<forall>erfinv.
     fit default_scaler [[Fin 5], [Fin 5]]
       = (default_scaler\<lparr>interp_func := Some [\<lparr>interp_x = [Fin 5], interp_y = [NaN]\<rparr>]\<rparr>, Inr ()) \<and>
     call_linear \<lparr>interp_x = [Fin 5], interp_y = [NaN]\<rparr> (Fin 7) = NaN \<and>
     \<not> np_isfinite NaN \<and>
     snd (transform erfinv (fst (fit default_scaler [[Fin 5], [Fin 5]])) [[Fin 7]])
       = Inr [[erfinv NaN]]"
  by (simp add: eval_defs)

end
